theory Spec2Isabelle
  imports Complex_Main "HOL-Library.Char_ord" "HOL-Library.List_Lexorder" "HOL-Library.Multiset"
begin

section \<open>Python values\<close>

text \<open>
  The module \<^verbatim>\<open>sinter/_data/_csv_out.py\<close> formats one statistics record as a CSV
  line. Its arguments are dynamically typed (\<^verbatim>\<open>Any\<close>); the embedding works on the
  JSON-like fragment of Python values below.

  \<^item> A Python \<^verbatim>\<open>str\<close> is a \<^typ>\<open>string\<close>; a \<^typ>\<open>char\<close> stands for the code point of
    the same number, so the texts covered are those over U+0000 .. U+00FF.
  \<^item> A Python \<^verbatim>\<open>int\<close> is an \<^typ>\<open>int\<close>. The interpreter caps the number of digits of a
    conversion between int and text (4300 by default): \<^verbatim>\<open>int(text)\<close> below raises beyond
    the cap, and the ints a caller passes are taken to be within it, so that \<^verbatim>\<open>str(int)\<close>
    does not raise.
  \<^item> A Python \<^verbatim>\<open>float\<close> is \<open>Finite s m e\<close>, standing for \<open>(-1)^s * m * 2^e\<close>
    (so that \<open>Finite True 0 0\<close> is \<^verbatim>\<open>-0.0\<close>), or an infinity with its sign, or NaN.
  \<^item> A \<^verbatim>\<open>dict\<close> (or \<^verbatim>\<open>collections.Counter\<close>) is the list of its items in
    insertion order; keys are texts. A well-formed dict has pairwise distinct keys.
  \<^item> A \<^verbatim>\<open>list\<close> or \<^verbatim>\<open>tuple\<close> is a list.
\<close>

datatype pyfloat = Finite bool nat int | Infinity bool | NaN

datatype pyval =
    PNone
  | PBool bool
  | PInt int
  | PFloat pyfloat
  | PStr string
  | PList "pyval list"
  | PDict "(string \<times> pyval) list"

datatype py_error = TypeError | ValueError | OverflowError | KeyError

text \<open>
  The \<^verbatim>\<open>custom_counts\<close> argument: absent (\<^verbatim>\<open>None\<close>), a text (the header call passes
  the column label), or a mapping from label to count.
\<close>

datatype counts = CountsNone | CountsStr string | CountsDict "(string \<times> pyval) list"

section \<open>Library functions the module calls\<close>

subsection \<open>Characters\<close>

definition COMMA :: char where "COMMA = CHR '',''"
definition DQUOTE :: char where "DQUOTE = CHR 0x22"
definition CR :: char where "CR = CHR 0x0D"
definition LF :: char where "LF = CHR 0x0A"
definition SPACE :: char where "SPACE = CHR '' ''"

definition code_point :: "char \<Rightarrow> nat" where
  "code_point c = of_char c"

text \<open>\<^verbatim>\<open>str.isspace\<close> on one code point below 256 (what \<^verbatim>\<open>str.strip()\<close> removes).\<close>

definition is_space :: "char \<Rightarrow> bool" where
  "is_space c = (code_point c \<in> {9, 10, 11, 12, 13, 28, 29, 30, 31, 32, 133, 160})"

definition is_digit :: "char \<Rightarrow> bool" where
  "is_digit c = (48 \<le> code_point c \<and> code_point c \<le> 57)"

definition digit_val :: "char \<Rightarrow> nat" where
  "digit_val c = code_point c - 48"

definition digit_char :: "nat \<Rightarrow> char" where
  "digit_char d = ''0123456789abcdef'' ! d"

subsection \<open>\<^verbatim>\<open>str(int)\<close>, \<^verbatim>\<open>str.strip\<close>, \<^verbatim>\<open>str.rjust\<close>, \<^verbatim>\<open>str.join\<close>\<close>

fun str_nat :: "nat \<Rightarrow> string" where
  "str_nat n = (if n < 10 then [digit_char n] else str_nat (n div 10) @ [digit_char (n mod 10)])"

declare str_nat.simps [simp del]

definition str_int :: "int \<Rightarrow> string" where
  "str_int i = (if i < 0 then CHR ''-'' # str_nat (nat (- i)) else str_nat (nat i))"

definition lstrip :: "string \<Rightarrow> string" where
  "lstrip s = dropWhile is_space s"

definition rstrip :: "string \<Rightarrow> string" where
  "rstrip s = rev (dropWhile is_space (rev s))"

definition strip :: "string \<Rightarrow> string" where
  "strip s = rstrip (lstrip s)"

definition rjust :: "int \<Rightarrow> string \<Rightarrow> string" where
  "rjust width s = replicate (nat (width - int (length s))) SPACE @ s"

fun join :: "string \<Rightarrow> string list \<Rightarrow> string" where
  "join sep [] = []"
| "join sep [x] = x"
| "join sep (x # y # ys) = x @ sep @ join sep (y # ys)"

subsection \<open>\<^verbatim>\<open>str(value)\<close>\<close>

text \<open>
  \<^verbatim>\<open>str()\<close> of a float, a list or a dict is Python's \<^verbatim>\<open>repr\<close> of it. The module
  never looks inside that text, so \<^verbatim>\<open>repr\<close> is the parameter \<open>R\<close> of everything
  below, and every theorem holds for each \<open>R\<close>.
\<close>

fun py_str :: "(pyval \<Rightarrow> string) \<Rightarrow> pyval \<Rightarrow> string" where
  "py_str R PNone = ''None''"
| "py_str R (PBool b) = (if b then ''True'' else ''False'')"
| "py_str R (PInt i) = str_int i"
| "py_str R (PStr s) = s"
| "py_str R v = R v"

subsection \<open>\<^verbatim>\<open>csv.writer(output).writerow([text])\<close>\<close>

text \<open>
  The default dialect: delimiter comma, quote character \<^verbatim>\<open>"\<close>, minimal quoting, doubled
  quotes, line terminator CR LF. A text is written as it is, \<^verbatim>\<open>None\<close> as the empty text,
  anything else as its \<^verbatim>\<open>str()\<close>. The field is quoted when it holds a delimiter, a
  quote character, CR or LF; a record whose single field is empty is written quoted.
\<close>

fun csv_text :: "(pyval \<Rightarrow> string) \<Rightarrow> pyval \<Rightarrow> string" where
  "csv_text R PNone = []"
| "csv_text R v = py_str R v"

definition is_special :: "char \<Rightarrow> bool" where
  "is_special c = (c = COMMA \<or> c = DQUOTE \<or> c = CR \<or> c = LF)"

definition double_quotes :: "string \<Rightarrow> string" where
  "double_quotes s = concat (map (\<lambda>c. if c = DQUOTE then [DQUOTE, DQUOTE] else [c]) s)"

definition csv_quote :: "string \<Rightarrow> string" where
  "csv_quote s = DQUOTE # double_quotes s @ [DQUOTE]"

definition csv_field :: "string \<Rightarrow> string" where
  "csv_field s = (if s = [] \<or> list_ex is_special s then csv_quote s else s)"

definition writerow1 :: "(pyval \<Rightarrow> string) \<Rightarrow> pyval \<Rightarrow> string" where
  "writerow1 R v = csv_field (csv_text R v) @ [CR, LF]"

subsection \<open>Float comparison, \<^verbatim>\<open>f'{x:0.kf}'\<close> and \<^verbatim>\<open>int(x)\<close>\<close>

text \<open>
  \<open>Finite s m e\<close> is the fraction \<open>float_num / float_den\<close> up to its sign: one of
  the two is \<open>m\<close> scaled by the power of two, the other is 1.
\<close>

definition float_num :: "nat \<Rightarrow> int \<Rightarrow> nat" where
  "float_num m e = m * 2 ^ nat e"

definition float_den :: "int \<Rightarrow> nat" where
  "float_den e = 2 ^ nat (- e)"

text \<open>\<^verbatim>\<open>x < c\<close> for a float \<open>x\<close> and an int \<open>c\<close>: exact; false for NaN.\<close>

fun float_lt_int :: "pyfloat \<Rightarrow> int \<Rightarrow> bool" where
  "float_lt_int (Finite s m e) c =
     ((if s then - int (float_num m e) else int (float_num m e)) < c * int (float_den e))"
| "float_lt_int (Infinity s) c = s"
| "float_lt_int NaN c = False"

text \<open>
  Fixed-point formatting with \<open>k\<close> digits after the point: the exact value is rounded
  to the nearest multiple of \<open>10^-k\<close>, ties to even; the sign bit alone decides the
  minus sign (\<^verbatim>\<open>-0.0001\<close> gives \<^verbatim>\<open>-0.000\<close>).
\<close>

definition round_half_even :: "nat \<Rightarrow> nat \<Rightarrow> nat" where
  "round_half_even num den =
     (let q = num div den; r = num mod den
      in if den < 2 * r \<or> (2 * r = den \<and> odd q) then q + 1 else q)"

fun pad_digits :: "nat \<Rightarrow> nat \<Rightarrow> string" where
  "pad_digits 0 n = []"
| "pad_digits (Suc k) n = pad_digits k (n div 10) @ [digit_char (n mod 10)]"

fun format_f :: "nat \<Rightarrow> pyfloat \<Rightarrow> string" where
  "format_f k (Finite s m e) =
     (let n = round_half_even (float_num m e * 10 ^ k) (float_den e)
      in (if s then ''-'' else []) @ str_nat (n div 10 ^ k) @
         (if k = 0 then [] else CHR ''.'' # pad_digits k (n mod 10 ^ k)))"
| "format_f k (Infinity s) = (if s then ''-inf'' else ''inf'')"
| "format_f k NaN = ''nan''"

text \<open>
  \<^verbatim>\<open>int(text)\<close>: surrounding whitespace is dropped (here the set is smaller than
  \<^verbatim>\<open>str.isspace\<close>: U+001C .. U+001F do not count), then an optional sign, then
  decimal digits, where single underscores may stand between digits. A literal of more
  than 4300 digits (underscores not counted) is refused like a text that is no literal.
\<close>

definition is_int_space :: "char \<Rightarrow> bool" where
  "is_int_space c = (code_point c \<in> {9, 10, 11, 12, 13, 32, 133, 160})"

fun digits_acc :: "nat \<Rightarrow> string \<Rightarrow> nat option" where
  "digits_acc acc [] = Some acc"
| "digits_acc acc [c] = (if is_digit c then Some (10 * acc + digit_val c) else None)"
| "digits_acc acc (c # d # cs) =
     (if is_digit c then digits_acc (10 * acc + digit_val c) (d # cs)
      else if c = CHR ''_'' \<and> is_digit d then digits_acc (10 * acc + digit_val d) cs
      else None)"

fun parse_digits :: "string \<Rightarrow> nat option" where
  "parse_digits [] = None"
| "parse_digits (c # cs) = (if is_digit c then digits_acc (digit_val c) cs else None)"

definition MAX_STR_DIGITS :: nat where
  "MAX_STR_DIGITS = 4300"

definition parse_int :: "string \<Rightarrow> py_error + int" where
  "parse_int s =
     (let t = rev (dropWhile is_int_space (rev (dropWhile is_int_space s)));
          neg = (t \<noteq> [] \<and> hd t = CHR ''-'');
          body = (if t \<noteq> [] \<and> (hd t = CHR ''-'' \<or> hd t = CHR ''+'') then tl t else t)
      in case parse_digits body of
           None \<Rightarrow> Inl ValueError
         | Some n \<Rightarrow>
             if MAX_STR_DIGITS < length (filter is_digit body) then Inl ValueError
             else Inr (if neg then - int n else int n))"

text \<open>\<^verbatim>\<open>int(v)\<close>: a float is truncated towards zero; NaN and the infinities raise.\<close>

fun py_int :: "pyval \<Rightarrow> py_error + int" where
  "py_int (PInt i) = Inr i"
| "py_int (PBool b) = Inr (if b then 1 else 0)"
| "py_int (PFloat (Finite s m e)) =
     (let q = int (float_num m e div float_den e) in Inr (if s then - q else q))"
| "py_int (PFloat (Infinity s)) = Inl OverflowError"
| "py_int (PFloat NaN) = Inl ValueError"
| "py_int (PStr s) = parse_int s"
| "py_int PNone = Inl TypeError"
| "py_int (PList xs) = Inl TypeError"
| "py_int (PDict kvs) = Inl TypeError"

subsection \<open>\<^verbatim>\<open>json.dumps(v, separators=(',', ':'), sort_keys=True)\<close>\<close>

text \<open>
  Texts are written with \<^verbatim>\<open>ensure_ascii\<close>: quote, backslash and the control characters
  with a short form are escaped by a backslash, every other code point outside
  U+0020 .. U+007E as \<^verbatim>\<open>\u00xx\<close>.
\<close>

definition BACKSLASH :: char where "BACKSLASH = CHR 0x5C"

definition json_char :: "char \<Rightarrow> string" where
  "json_char c =
     (if c = DQUOTE then [BACKSLASH, DQUOTE]
      else if c = BACKSLASH then [BACKSLASH, BACKSLASH]
      else if c = LF then [BACKSLASH, CHR ''n'']
      else if c = CR then [BACKSLASH, CHR ''r'']
      else if c = CHR 0x09 then [BACKSLASH, CHR ''t'']
      else if c = CHR 0x08 then [BACKSLASH, CHR ''b'']
      else if c = CHR 0x0C then [BACKSLASH, CHR ''f'']
      else if 32 \<le> code_point c \<and> code_point c \<le> 126 then [c]
      else [BACKSLASH, CHR ''u'', CHR ''0'', CHR ''0'',
            digit_char (code_point c div 16), digit_char (code_point c mod 16)])"

definition json_str :: "string \<Rightarrow> string" where
  "json_str s = DQUOTE # concat (map json_char s) @ [DQUOTE]"

text \<open>
  The items of a dict are sorted by key (texts compare code point by code point), an
  item is \<^verbatim>\<open>key:value\<close>, items are joined by a comma. A finite float is written as its
  \<^verbatim>\<open>repr\<close>; NaN and the infinities have fixed names (\<^verbatim>\<open>allow_nan\<close> is on by default).
\<close>

fun json_dumps :: "(pyval \<Rightarrow> string) \<Rightarrow> pyval \<Rightarrow> string" where
  "json_dumps R PNone = ''null''"
| "json_dumps R (PBool b) = (if b then ''true'' else ''false'')"
| "json_dumps R (PInt i) = str_int i"
| "json_dumps R (PFloat NaN) = ''NaN''"
| "json_dumps R (PFloat (Infinity s)) = (if s then ''-Infinity'' else ''Infinity'')"
| "json_dumps R (PFloat (Finite s m e)) = R (PFloat (Finite s m e))"
| "json_dumps R (PStr s) = json_str s"
| "json_dumps R (PList xs) = ''['' @ join '','' (map (json_dumps R) xs) @ '']''"
| "json_dumps R (PDict kvs) =
     ''{'' @ join '','' (map (\<lambda>(k, v). json_str k @ '':'' @ json_dumps R v) (sort_key fst kvs)) @ ''}''"

declare json_dumps.simps [simp del]

section \<open>The module\<close>

subsection \<open>\<^verbatim>\<open>escape_csv\<close>\<close>

definition escape_csv :: "(pyval \<Rightarrow> string) \<Rightarrow> pyval \<Rightarrow> int option \<Rightarrow> string" where
  "escape_csv R text width =
     (let text = strip (writerow1 R text)
      in case width of None \<Rightarrow> text | Some w \<Rightarrow> rjust w text)"

subsection \<open>\<^verbatim>\<open>csv_line\<close>\<close>

text \<open>Lines 27 to 33: a float \<^verbatim>\<open>seconds\<close> becomes a text, anything else is kept.\<close>

fun format_seconds :: "pyval \<Rightarrow> pyval" where
  "format_seconds (PFloat x) =
     PStr (if float_lt_int x 1 then format_f 3 x
           else if float_lt_int x 10 then format_f 2 x
           else format_f 1 x)"
| "format_seconds v = v"

text \<open>
  Lines 40 and 41: \<^verbatim>\<open>for k in custom_counts: custom_counts[k] = int(custom_counts[k])\<close>.
  The dict is the caller's object and is updated in place, key by key in insertion order;
  the loop returns the dict as it stands when the loop ends or \<^verbatim>\<open>int\<close> raises.
\<close>

fun dict_set :: "string \<Rightarrow> pyval \<Rightarrow> (string \<times> pyval) list \<Rightarrow> (string \<times> pyval) list" where
  "dict_set k v [] = [(k, v)]"
| "dict_set k v ((k', v') # d) = (if k' = k then (k, v) # d else (k', v') # dict_set k v d)"

fun coerce_keys ::
  "string list \<Rightarrow> (string \<times> pyval) list \<Rightarrow> py_error option \<times> (string \<times> pyval) list" where
  "coerce_keys [] d = (None, d)"
| "coerce_keys (k # ks) d =
     (case map_of d k of
        None \<Rightarrow> (Some KeyError, d)
      | Some v \<Rightarrow>
          (case py_int v of
             Inl err \<Rightarrow> (Some err, d)
           | Inr i \<Rightarrow> coerce_keys ks (dict_set k (PInt i) d)))"

text \<open>
  Lines 38 to 47, the \<^verbatim>\<open>custom_counts\<close> branch of a data row: the state of the caller's
  object afterwards, and the text of the column or the exception raised. A non-empty text
  is truthy and fails at \<^verbatim>\<open>custom_counts[k]\<close> (a text is not indexed by a text).
\<close>

fun prepare_counts :: "(pyval \<Rightarrow> string) \<Rightarrow> counts \<Rightarrow> counts \<times> (py_error + string)" where
  "prepare_counts R CountsNone = (CountsNone, Inr [])"
| "prepare_counts R (CountsStr s) =
     (CountsStr s, if s = [] then Inr [] else Inl TypeError)"
| "prepare_counts R (CountsDict d) =
     (if d = [] then (CountsDict d, Inr [])
      else case coerce_keys (map fst d) d of
             (Some err, d') \<Rightarrow> (CountsDict d', Inl err)
           | (None, d') \<Rightarrow>
               (CountsDict d', Inr (escape_csv R (PStr (json_dumps R (PDict d'))) None)))"

text \<open>\<^verbatim>\<open>f'{custom_counts}'\<close> on the argument as passed (the header call).\<close>

fun counts_str :: "(pyval \<Rightarrow> string) \<Rightarrow> counts \<Rightarrow> string" where
  "counts_str R CountsNone = ''None''"
| "counts_str R (CountsStr s) = s"
| "counts_str R (CountsDict d) = R (PDict d)"

text \<open>Lines 51 and 52: a dict (or Counter) of errors is dumped as JSON.\<close>

fun dump_errors :: "(pyval \<Rightarrow> string) \<Rightarrow> pyval \<Rightarrow> pyval" where
  "dump_errors R (PDict d) = PStr (json_dumps R (PDict d))"
| "dump_errors R v = v"

text \<open>
  \<^verbatim>\<open>csv_line\<close> returns the caller's \<^verbatim>\<open>custom_counts\<close> object as the call leaves it,
  and the line or the exception. The arguments are taken to be separate objects.
\<close>

definition csv_line ::
  "(pyval \<Rightarrow> string) \<Rightarrow> pyval \<Rightarrow> pyval \<Rightarrow> pyval \<Rightarrow> pyval \<Rightarrow> pyval \<Rightarrow> pyval \<Rightarrow> pyval \<Rightarrow> counts \<Rightarrow> bool
     \<Rightarrow> counts \<times> (py_error + string)" where
  "csv_line R shots errors discards seconds decoder strong_id json_metadata custom_counts is_header =
     (let seconds = format_seconds seconds;
          json_metadata = (if \<not> is_header then PStr (json_dumps R json_metadata) else json_metadata);
          (counts_after, custom_counts) =
             (if \<not> is_header then prepare_counts R custom_counts
              else (custom_counts, Inr (counts_str R custom_counts)))
      in (counts_after,
          case custom_counts of
            Inl err \<Rightarrow> Inl err
          | Inr custom_counts \<Rightarrow>
              (let shots = escape_csv R shots (Some 10);
                   errors = escape_csv R (dump_errors R errors) (Some 10);
                   discards = escape_csv R discards (Some 10);
                   seconds = escape_csv R seconds (Some 8);
                   decoder = escape_csv R decoder None;
                   strong_id = escape_csv R strong_id None;
                   json_metadata = escape_csv R json_metadata None
               in Inr (shots @ '','' @ errors @ '','' @ discards @ '','' @ seconds @ '','' @
                       decoder @ '','' @ strong_id @ '','' @ json_metadata @ '','' @
                       custom_counts))))"

definition CSV_HEADER :: "(pyval \<Rightarrow> string) \<Rightarrow> string" where
  "CSV_HEADER R =
     (case snd (csv_line R (PStr ''shots'') (PStr ''errors'') (PStr ''discards'')
                  (PStr ''seconds'') (PStr ''decoder'') (PStr ''strong_id'')
                  (PStr ''json_metadata'') (CountsStr ''custom_counts'') True) of
        Inr line \<Rightarrow> line
      | Inl err \<Rightarrow> [])"

section \<open>Reading a line back\<close>

text \<open>
  The module only writes. To state what a reader finds in a line, the line is split at the
  commas that lie outside quotes: a quote character switches between outside and inside,
  so that a doubled quote inside a quoted field leaves the reader inside.
\<close>

fun split_fields_in :: "bool \<Rightarrow> string \<Rightarrow> string list" where
  "split_fields_in q [] = [[]]"
| "split_fields_in q (c # cs) =
     (if c = COMMA \<and> \<not> q then [] # split_fields_in q cs
      else (let r = split_fields_in (if c = DQUOTE then \<not> q else q) cs
            in (c # hd r) # tl r))"

definition split_fields :: "string \<Rightarrow> string list" where
  "split_fields s = split_fields_in False s"

text \<open>
  A text is a well-formed field when the reader, started outside quotes, meets no comma
  outside quotes in it and is outside quotes again at its end.
\<close>

fun quote_state :: "bool \<Rightarrow> string \<Rightarrow> bool" where
  "quote_state q [] = q"
| "quote_state q (c # cs) = quote_state (if c = DQUOTE then \<not> q else q) cs"

fun sealed :: "bool \<Rightarrow> string \<Rightarrow> bool" where
  "sealed q [] = True"
| "sealed q (c # cs) = (\<not> (c = COMMA \<and> \<not> q) \<and> sealed (if c = DQUOTE then \<not> q else q) cs)"

definition field_ok :: "string \<Rightarrow> bool" where
  "field_ok f = (sealed False f \<and> \<not> quote_state False f)"

text \<open>The number of commas outside quotes.\<close>

fun outer_commas :: "bool \<Rightarrow> string \<Rightarrow> nat" where
  "outer_commas q [] = 0"
| "outer_commas q (c # cs) =
     (if c = COMMA \<and> \<not> q then Suc (outer_commas q cs)
      else outer_commas (if c = DQUOTE then \<not> q else q) cs)"

text \<open>
  Unescaping a field: the surrounding quotes are removed and each doubled quote becomes
  one quote; a field that is not quoted is taken as it is.
\<close>

fun collapse_quotes :: "string \<Rightarrow> string" where
  "collapse_quotes (c # d # cs) =
     (if c = DQUOTE \<and> d = DQUOTE then DQUOTE # collapse_quotes cs
      else c # collapse_quotes (d # cs))"
| "collapse_quotes cs = cs"

definition unescape_field :: "string \<Rightarrow> string" where
  "unescape_field f =
     (if 2 \<le> length f \<and> hd f = DQUOTE \<and> last f = DQUOTE
      then collapse_quotes (butlast (tl f)) else f)"

text \<open>
  The digits after the decimal point of a rendered number: the text after the first
  point, if there is a point.
\<close>

definition fraction_digits :: "string \<Rightarrow> string option" where
  "fraction_digits s =
     (if CHR ''.'' \<in> set s then Some (tl (dropWhile (\<lambda>c. c \<noteq> CHR ''.'') s)) else None)"

text \<open>The characters of a rendered number: digits, the minus sign and the point.\<close>

definition num_char :: "char \<Rightarrow> bool" where
  "num_char c = (is_digit c \<or> c = CHR ''-'' \<or> c = CHR ''.'')"

text \<open>
  The value of a finite float as a real number, to state what the comparisons and the
  rounding of the library functions above mean.
\<close>

fun float_val :: "pyfloat \<Rightarrow> real" where
  "float_val (Finite s m e) = (if s then - 1 else 1) * real m * 2 powi e"
| "float_val (Infinity s) = 0"
| "float_val NaN = 0"

text \<open>
  One entry of \<^verbatim>\<open>custom_counts\<close> before and after the coercion loop: the key is kept and
  the value is replaced by \<^verbatim>\<open>int\<close> of it.
\<close>

fun coerced :: "string \<times> pyval \<Rightarrow> string \<times> pyval \<Rightarrow> bool" where
  "coerced (k, v) (k', v') =
     (k' = k \<and> (case py_int v of Inr i \<Rightarrow> v' = PInt i | Inl err \<Rightarrow> False))"

text \<open>
  The coercion loop as a recursion over the items themselves; on a dict with distinct
  keys it is what \<open>coerce_keys\<close> computes (\<open>coerce_keys_items\<close> below).
\<close>

fun coerce_items :: "(string \<times> pyval) list \<Rightarrow> py_error option \<times> (string \<times> pyval) list" where
  "coerce_items [] = (None, [])"
| "coerce_items ((k, v) # d) =
     (case py_int v of
        Inl err \<Rightarrow> (Some err, (k, v) # d)
      | Inr i \<Rightarrow> (case coerce_items d of (r, d') \<Rightarrow> (r, (k, PInt i) # d')))"

text \<open>The seven columns of a data row that go through the final escaping pass.\<close>

definition escaped_fields ::
  "(pyval \<Rightarrow> string) \<Rightarrow> pyval \<Rightarrow> pyval \<Rightarrow> pyval \<Rightarrow> pyval \<Rightarrow> pyval \<Rightarrow> pyval \<Rightarrow> pyval \<Rightarrow> string list" where
  "escaped_fields R shots errors discards seconds decoder strong_id json_metadata =
     [escape_csv R shots (Some 10),
      escape_csv R (dump_errors R errors) (Some 10),
      escape_csv R discards (Some 10),
      escape_csv R (format_seconds seconds) (Some 8),
      escape_csv R decoder None,
      escape_csv R strong_id None,
      escape_csv R (PStr (json_dumps R json_metadata)) None]"

text \<open>
  The canonical form of a value: the items of every mapping in it, at any depth, in the
  order of their keys. It forgets the insertion order and nothing else.
\<close>

fun canon :: "pyval \<Rightarrow> pyval" where
  "canon (PList xs) = PList (map canon xs)"
| "canon (PDict kvs) = PDict (sort_key fst (map (\<lambda>(k, v). (k, canon v)) kvs))"
| "canon v = v"

text \<open>
  A stand-in for \<^verbatim>\<open>repr\<close> in the worked examples, none of which prints a float, a list
  or a dict through \<^verbatim>\<open>str()\<close>.
\<close>

definition repr0 :: "pyval \<Rightarrow> string" where
  "repr0 v = []"

section \<open>Auxiliary facts\<close>

subsection \<open>Stripping, quoting and splitting\<close>

lemma space_chars [simp]:
  "is_space CR" "is_space LF" "is_space SPACE" "\<not> is_space DQUOTE" "\<not> is_space COMMA"
  by (simp_all add: is_space_def code_point_def CR_def LF_def SPACE_def DQUOTE_def COMMA_def)

lemma distinct_chars [simp]:
  "COMMA \<noteq> DQUOTE" "DQUOTE \<noteq> COMMA" "SPACE \<noteq> COMMA" "SPACE \<noteq> DQUOTE"
  "CR \<noteq> COMMA" "LF \<noteq> COMMA" "CR \<noteq> DQUOTE" "LF \<noteq> DQUOTE"
  by (simp_all add: CR_def LF_def SPACE_def DQUOTE_def COMMA_def)

lemma rstrip_CRLF: "rstrip (s @ [CR, LF]) = rstrip s"
  by (simp add: rstrip_def)

lemma strip_CRLF: "strip (s @ [CR, LF]) = strip s"
proof (cases "\<forall>c\<in>set s. is_space c")
  case True
  then have "lstrip (s @ [CR, LF]) = []" "lstrip s = []" by (simp_all add: lstrip_def)
  then show ?thesis by (simp add: strip_def)
next
  case False
  then have "lstrip (s @ [CR, LF]) = lstrip s @ [CR, LF]"
    by (auto simp: lstrip_def dropWhile_append)
  then show ?thesis by (simp add: strip_def rstrip_CRLF)
qed

lemma strip_csv_quote: "strip (csv_quote t) = csv_quote t"
  by (simp add: strip_def lstrip_def rstrip_def csv_quote_def)

lemma strip_subset: "set (strip s) \<subseteq> set s"
proof -
  have "set (strip s) \<subseteq> set (lstrip s)"
    unfolding strip_def rstrip_def using set_dropWhileD by fastforce
  moreover have "set (lstrip s) \<subseteq> set s"
    unfolding lstrip_def using set_dropWhileD by fastforce
  ultimately show ?thesis by blast
qed

lemma strip_no_space_ends:
  assumes "s \<noteq> []" "\<not> is_space (hd s)" "\<not> is_space (last s)"
  shows "strip s = s"
proof -
  have 1: "lstrip s = s" using assms by (cases s) (simp_all add: lstrip_def)
  have "dropWhile is_space (rev s) = rev s"
    using assms by (cases "rev s") (simp_all add: last_rev hd_rev)
  then show ?thesis by (simp add: strip_def rstrip_def 1)
qed

lemma strip_last: "strip s \<noteq> [] \<Longrightarrow> \<not> is_space (last (strip s))"
proof -
  assume a: "strip s \<noteq> []"
  let ?d = "dropWhile is_space (rev (lstrip s))"
  have s: "strip s = rev ?d" by (simp add: strip_def rstrip_def)
  with a have "?d \<noteq> []" by simp
  then have "\<not> is_space (hd ?d)" by (rule hd_dropWhile)
  moreover have "last (strip s) = hd ?d" using s \<open>?d \<noteq> []\<close> by (simp add: last_rev)
  ultimately show ?thesis by simp
qed

lemma escape_csv_None: "escape_csv R v None = strip (csv_field (csv_text R v))"
  by (simp add: escape_csv_def writerow1_def strip_CRLF)

lemma escape_csv_Some: "escape_csv R v (Some w) = rjust w (escape_csv R v None)"
  by (simp add: escape_csv_def)

lemma escape_csv_quoted:
  "csv_text R v = [] \<or> list_ex is_special (csv_text R v) \<Longrightarrow>
   escape_csv R v None = csv_quote (csv_text R v)"
  by (auto simp: escape_csv_None csv_field_def strip_csv_quote)

lemma escape_csv_plain:
  "csv_text R v \<noteq> [] \<Longrightarrow> \<not> list_ex is_special (csv_text R v) \<Longrightarrow>
   escape_csv R v None = strip (csv_text R v)"
  by (simp add: escape_csv_None csv_field_def)

lemma sealed_plain: "COMMA \<notin> set s \<Longrightarrow> sealed q s"
  by (induction s arbitrary: q) auto

lemma quote_state_plain: "DQUOTE \<notin> set s \<Longrightarrow> quote_state q s = q"
  by (induction s arbitrary: q) auto

lemma sealed_append: "sealed q (a @ b) = (sealed q a \<and> sealed (quote_state q a) b)"
  by (induction a arbitrary: q) auto

lemma quote_state_append: "quote_state q (a @ b) = quote_state (quote_state q a) b"
  by (induction a arbitrary: q) auto

lemma sealed_double_quotes: "sealed True (double_quotes t @ r) = sealed True r"
  by (induction t) (auto simp: double_quotes_def)

lemma quote_state_double_quotes: "quote_state True (double_quotes t @ r) = quote_state True r"
  by (induction t) (auto simp: double_quotes_def)

lemma field_ok_csv_quote: "field_ok (csv_quote t)"
  by (simp add: field_ok_def csv_quote_def sealed_double_quotes quote_state_double_quotes)

lemma field_ok_plain: "COMMA \<notin> set s \<Longrightarrow> DQUOTE \<notin> set s \<Longrightarrow> field_ok s"
  by (simp add: field_ok_def sealed_plain quote_state_plain)

lemma field_ok_Nil [simp]: "field_ok []"
  by (simp add: field_ok_def)

lemma sealed_padding: "sealed q (replicate n SPACE @ s) = sealed q s"
  by (induction n) auto

lemma quote_state_padding: "quote_state q (replicate n SPACE @ s) = quote_state q s"
  by (induction n) auto

lemma field_ok_rjust: "field_ok s \<Longrightarrow> field_ok (rjust w s)"
  by (simp add: field_ok_def rjust_def sealed_padding quote_state_padding)

lemma field_ok_escape_None: "field_ok (escape_csv R v None)"
proof (cases "csv_text R v = [] \<or> list_ex is_special (csv_text R v)")
  case True
  then show ?thesis by (simp add: escape_csv_quoted field_ok_csv_quote)
next
  case False
  then have e: "escape_csv R v None = strip (csv_text R v)"
    by (simp add: escape_csv_plain)
  from False have "COMMA \<notin> set (csv_text R v)" "DQUOTE \<notin> set (csv_text R v)"
    by (auto simp: list_ex_iff is_special_def)
  with strip_subset[of "csv_text R v"] have "COMMA \<notin> set (strip (csv_text R v))"
    "DQUOTE \<notin> set (strip (csv_text R v))" by blast+
  then show ?thesis by (simp add: e field_ok_plain)
qed

lemma field_ok_escape: "field_ok (escape_csv R v w)"
  by (cases w) (simp_all add: field_ok_escape_None escape_csv_Some field_ok_rjust)

lemma split_fields_in_nonempty [simp]: "split_fields_in q s \<noteq> []"
  by (induction s arbitrary: q) (auto simp: Let_def)

lemma split_fields_in_append:
  "sealed q a \<Longrightarrow>
   split_fields_in q (a @ b) =
     (a @ hd (split_fields_in (quote_state q a) b)) # tl (split_fields_in (quote_state q a) b)"
  by (induction a arbitrary: q) (auto simp: Let_def)

lemma split_fields_single: "field_ok a \<Longrightarrow> split_fields a = [a]"
  using split_fields_in_append[of False a "[]"] by (simp add: split_fields_def field_ok_def)

lemma split_fields_cons:
  "field_ok a \<Longrightarrow> split_fields (a @ COMMA # b) = a # split_fields b"
  using split_fields_in_append[of False a "COMMA # b"] by (simp add: split_fields_def field_ok_def)

lemma length_split_fields_in: "length (split_fields_in q s) = Suc (outer_commas q s)"
  by (induction s arbitrary: q) (auto simp: Let_def)

subsection \<open>The coercion loop\<close>

lemma map_of_skip: "k \<notin> fst ` set pre \<Longrightarrow> map_of (pre @ (k, v) # r) k = Some v"
  by (induction pre) auto

lemma dict_set_skip:
  "k \<notin> fst ` set pre \<Longrightarrow> dict_set k v (pre @ (k, v0) # r) = pre @ (k, v) # r"
  by (induction pre) auto

lemma coerce_keys_items:
  "distinct (map fst (pre @ suf)) \<Longrightarrow>
   coerce_keys (map fst suf) (pre @ suf) = (fst (coerce_items suf), pre @ snd (coerce_items suf))"
proof (induction suf arbitrary: pre)
  case Nil
  then show ?case by simp
next
  case (Cons a suf)
  obtain k v where a: "a = (k, v)" by (cases a)
  from Cons.prems a have k: "k \<notin> fst ` set pre" by auto
  show ?case
  proof (cases "py_int v")
    case (Inl err)
    then show ?thesis using k a by (simp add: map_of_skip del: map_of_append)
  next
    case (Inr i)
    from Cons.prems a have "distinct (map fst ((pre @ [(k, PInt i)]) @ suf))" by auto
    from Cons.IH[OF this] Inr k a show ?thesis
      by (simp add: map_of_skip dict_set_skip del: map_of_append split: prod.splits)
  qed
qed

lemma coerce_keys_dict:
  "distinct (map fst d) \<Longrightarrow> coerce_keys (map fst d) d = coerce_items d"
  using coerce_keys_items[of "[]" d] by simp

lemma py_int_not_KeyError: "py_int v \<noteq> Inl KeyError"
proof (cases v)
  case (PFloat x)
  then show ?thesis by (cases x) (simp_all add: Let_def)
next
  case (PStr s)
  then show ?thesis by (simp add: parse_int_def Let_def split: option.splits if_splits)
qed simp_all

lemma coerce_items_ok:
  "fst (coerce_items d) = None \<Longrightarrow> list_all2 coerced d (snd (coerce_items d))"
  by (induction d rule: coerce_items.induct) (auto split: sum.splits prod.splits)

lemma coerce_items_fail:
  "list_all2 coerced pre pre' \<Longrightarrow> py_int v = Inl err \<Longrightarrow>
   coerce_items (pre @ (k, v) # post) = (Some err, pre' @ (k, v) # post)"
  by (induction pre pre' rule: list_all2_induct) (auto split: sum.splits prod.splits)

lemma coerce_items_first_fail:
  "\<exists>(k, v) \<in> set d. \<exists>err. py_int v = Inl err \<Longrightarrow>
   \<exists>pre pre' k v post err. d = pre @ (k, v) # post \<and> list_all2 coerced pre pre' \<and>
      py_int v = Inl err"
proof (induction d)
  case Nil
  then show ?case by simp
next
  case (Cons a d)
  obtain k v where a: "a = (k, v)" by (cases a)
  show ?case
  proof (cases "py_int v")
    case (Inl err)
    then have "a # d = [] @ (k, v) # d \<and> list_all2 coerced [] [] \<and> py_int v = Inl err"
      using a by simp
    then show ?thesis by blast
  next
    case (Inr i)
    with Cons.prems a have "\<exists>(k, v) \<in> set d. \<exists>err. py_int v = Inl err" by auto
    from Cons.IH[OF this] obtain pre pre' k' v' post err where
      h: "d = pre @ (k', v') # post" "list_all2 coerced pre pre'" "py_int v' = Inl err" by blast
    have "a # d = ((k, v) # pre) @ (k', v') # post \<and>
          list_all2 coerced ((k, v) # pre) ((k, PInt i) # pre') \<and> py_int v' = Inl err"
      using h a Inr by simp
    then show ?thesis by blast
  qed
qed

lemma coerce_items_keys: "map fst (snd (coerce_items d)) = map fst d"
  by (induction d rule: coerce_items.induct) (auto split: sum.splits prod.splits)

subsection \<open>The shape of a line\<close>

lemma comma_text: "'','' = [COMMA]"
  by (simp add: COMMA_def)

lemma split_join_fields:
  "fs \<noteq> [] \<Longrightarrow> list_all field_ok fs \<Longrightarrow> split_fields (join [COMMA] fs) = fs"
proof (induction "[COMMA]" fs rule: join.induct)
  case 1
  then show ?case by simp
next
  case (2 x)
  then show ?case by (simp add: split_fields_single)
next
  case (3 x y ys)
  then show ?case using split_fields_cons[of x "join [COMMA] (y # ys)"] by simp
qed

lemma csv_line_data:
  "csv_line R sh er di se de si jm cc False =
     (fst (prepare_counts R cc),
      case snd (prepare_counts R cc) of
        Inl err \<Rightarrow> Inl err
      | Inr c \<Rightarrow> Inr (join [COMMA] (escaped_fields R sh er di se de si jm @ [c])))"
  by (simp add: csv_line_def escaped_fields_def comma_text Let_def split: prod.splits sum.splits)

lemma csv_line_header:
  "csv_line R sh er di se de si jm cc True =
     (cc, Inr (join [COMMA]
                [escape_csv R sh (Some 10), escape_csv R (dump_errors R er) (Some 10),
                 escape_csv R di (Some 10), escape_csv R (format_seconds se) (Some 8),
                 escape_csv R de None, escape_csv R si None, escape_csv R jm None,
                 counts_str R cc]))"
  by (simp add: csv_line_def comma_text Let_def)

lemma escaped_fields_ok: "list_all field_ok (escaped_fields R sh er di se de si jm)"
  by (simp add: escaped_fields_def field_ok_escape)

lemma length_escaped_fields [simp]: "length (escaped_fields R sh er di se de si jm) = 7"
  by (simp add: escaped_fields_def)

lemma prepare_counts_field_ok: "snd (prepare_counts R cc) = Inr c \<Longrightarrow> field_ok c"
  by (cases cc) (auto simp: field_ok_escape split: if_splits prod.splits option.splits)

lemma csv_line_row:
  assumes "csv_line R sh er di se de si jm cc False = (after, Inr line)"
  shows "\<exists>c. prepare_counts R cc = (after, Inr c) \<and>
             line = join [COMMA] (escaped_fields R sh er di se de si jm @ [c]) \<and>
             split_fields line = escaped_fields R sh er di se de si jm @ [c]"
proof -
  from assms obtain c where c: "snd (prepare_counts R cc) = Inr c"
    and a: "after = fst (prepare_counts R cc)"
    and l: "line = join [COMMA] (escaped_fields R sh er di se de si jm @ [c])"
    by (auto simp: csv_line_data split: sum.splits)
  have "list_all field_ok (escaped_fields R sh er di se de si jm @ [c])"
    using escaped_fields_ok prepare_counts_field_ok[OF c] by simp
  then have "split_fields line = escaped_fields R sh er di se de si jm @ [c]"
    unfolding l by (intro split_join_fields) simp_all
  with c a l show ?thesis by (metis prod.collapse)
qed

lemma join_snoc: "fs \<noteq> [] \<Longrightarrow> join sep (fs @ [c]) = join sep fs @ sep @ c"
  by (induction sep fs rule: join.induct) simp_all

lemma prepare_counts_last:
  "snd (prepare_counts R cc) = Inr c \<Longrightarrow> c \<noteq> [] \<Longrightarrow> \<not> is_space (last c)"
  by (cases cc) (auto simp: escape_csv_None strip_last split: if_splits prod.splits option.splits)

lemma prepare_counts_empty:
  "cc = CountsNone \<or> cc = CountsDict [] \<or> cc = CountsStr [] \<Longrightarrow>
   prepare_counts R cc = (cc, Inr [])"
  by auto

lemma CSV_HEADER_text:
  "CSV_HEADER R =
   ''     shots,    errors,  discards, seconds,decoder,strong_id,json_metadata,custom_counts''"
  by code_simp

lemma escape_null: "escape_csv R (PStr ''null'') None = ''null''"
  by code_simp


lemma CSV_HEADER_fields:
  "split_fields (CSV_HEADER R) =
     [''     shots'', ''    errors'', ''  discards'', '' seconds'', ''decoder'', ''strong_id'',
      ''json_metadata'', ''custom_counts'']"
  unfolding CSV_HEADER_text by code_simp

lemma CSV_HEADER_names:
  "map lstrip
     [''     shots'', ''    errors'', ''  discards'', '' seconds'', ''decoder'', ''strong_id'',
      ''json_metadata'', ''custom_counts''] =
     [''shots'', ''errors'', ''discards'', ''seconds'', ''decoder'', ''strong_id'',
      ''json_metadata'', ''custom_counts'']"
  by code_simp

lemma CSV_HEADER_last: "last (CSV_HEADER R) = CHR ''s''"
  unfolding CSV_HEADER_text by simp

lemma prepare_counts_dict:
  "d \<noteq> [] \<Longrightarrow> distinct (map fst d) \<Longrightarrow>
   prepare_counts R (CountsDict d) =
     (CountsDict (snd (coerce_items d)),
      case fst (coerce_items d) of
        Some err \<Rightarrow> Inl err
      | None \<Rightarrow> Inr (escape_csv R (PStr (json_dumps R (PDict (snd (coerce_items d))))) None))"
  by (simp add: coerce_keys_dict split: prod.splits option.splits)

lemma dict_set_nonempty [simp]: "dict_set k v d \<noteq> []"
  by (cases d) (auto split: if_splits)

lemma escape_str_quoted:
  "s = [] \<or> list_ex is_special s \<Longrightarrow> escape_csv R (PStr s) None = csv_quote s"
  using escape_csv_quoted[of R "PStr s"] by simp

lemma escape_str_plain:
  "s \<noteq> [] \<Longrightarrow> \<not> list_ex is_special s \<Longrightarrow> escape_csv R (PStr s) None = strip s"
  using escape_csv_plain[of R "PStr s"] by simp

lemma coerce_keys_nonempty: "d \<noteq> [] \<Longrightarrow> snd (coerce_keys ks d) \<noteq> []"
  by (induction ks arbitrary: d) (auto split: option.splits sum.splits)

lemma join_first: "set x \<subseteq> set (join sep (x # xs))"
  by (cases xs) auto

lemma json_dict_has_quote: "d \<noteq> [] \<Longrightarrow> DQUOTE \<in> set (json_dumps R (PDict d))"
proof -
  assume "d \<noteq> []"
  then have "sort_key fst d \<noteq> []" by (metis length_0_conv length_sort)
  then obtain k v r where s: "sort_key fst d = (k, v) # r"
    by (cases "sort_key fst d") auto
  have "DQUOTE \<in> set (json_str k @ '':'' @ json_dumps R v)"
    by (simp add: json_str_def)
  with join_first[of "json_str k @ '':'' @ json_dumps R v" "'',''"]
  show ?thesis by (auto simp: s json_dumps.simps)
qed

lemma length_double_quotes: "length s \<le> length (double_quotes s)"
  by (induction s) (auto simp: double_quotes_def)

lemma csv_quote_longer: "length s < length (csv_quote s)"
  using length_double_quotes[of s] by (simp add: csv_quote_def)

lemma escape_quoted_again:
  "escape_csv R (PStr (csv_quote t)) None = csv_quote (csv_quote t)"
  by (rule escape_str_quoted) (simp add: csv_quote_def is_special_def)

lemma prepare_counts_nonempty_dict:
  assumes "d \<noteq> []" and "prepare_counts R (CountsDict d) = (after, Inr c)"
  shows "\<exists>d'. d' \<noteq> [] \<and> after = CountsDict d' \<and>
           c = escape_csv R (PStr (json_dumps R (PDict d'))) None \<and>
           c = csv_quote (json_dumps R (PDict d'))"
proof -
  obtain r d' where k: "coerce_keys (map fst d) d = (r, d')" by (cases "coerce_keys (map fst d) d")
  have ac: "after = CountsDict d' \<and> c = escape_csv R (PStr (json_dumps R (PDict d'))) None"
  proof (cases r)
    case None
    with assms(1) k have "prepare_counts R (CountsDict d) =
        (CountsDict d', Inr (escape_csv R (PStr (json_dumps R (PDict d'))) None))"
      by simp
    with assms(2) show ?thesis by simp
  next
    case (Some err)
    with assms(1) k have "prepare_counts R (CountsDict d) = (CountsDict d', Inl err)"
      by simp
    with assms(2) show ?thesis by simp
  qed
  have n: "d' \<noteq> []" using coerce_keys_nonempty[OF assms(1), of "map fst d"] k by simp
  have "list_ex is_special (json_dumps R (PDict d'))"
    using json_dict_has_quote[OF n, of R] by (auto simp: list_ex_iff is_special_def)
  then have "escape_csv R (PStr (json_dumps R (PDict d'))) None = csv_quote (json_dumps R (PDict d'))"
    by (intro escape_str_quoted) simp
  with n ac show ?thesis by simp
qed

lemma coerce_items_ints:
  "\<forall>(k, v) \<in> set d. \<exists>i. v = PInt i \<Longrightarrow> coerce_items d = (None, d)"
  by (induction d) auto

lemma collapse_plain: "c \<noteq> DQUOTE \<Longrightarrow> collapse_quotes (c # cs) = c # collapse_quotes cs"
  by (cases cs) simp_all

lemma collapse_double_quotes: "collapse_quotes (double_quotes s) = s"
proof (induction s)
  case Nil
  then show ?case by (simp add: double_quotes_def)
next
  case (Cons c s)
  have "double_quotes (c # s) = (if c = DQUOTE then [DQUOTE, DQUOTE] else [c]) @ double_quotes s"
    by (simp add: double_quotes_def)
  with Cons show ?case by (simp add: collapse_plain)
qed

lemma unescape_csv_quote: "unescape_field (csv_quote s) = s"
  by (simp add: unescape_field_def csv_quote_def collapse_double_quotes butlast_append)

lemma lstrip_rjust_quote: "lstrip (rjust w (csv_quote s)) = csv_quote s"
  by (simp add: lstrip_def rjust_def csv_quote_def dropWhile_append)

lemma strip_no_special: "\<not> list_ex is_special t \<Longrightarrow> \<not> list_ex is_special (strip t)"
  using strip_subset[of t] by (auto simp: list_ex_iff)

subsection \<open>Rendering floats\<close>

lemma digit_char_is_digit: "d < 10 \<Longrightarrow> is_digit (digit_char d)"
proof -
  assume "d < 10"
  then have "d = 0 \<or> d = 1 \<or> d = 2 \<or> d = 3 \<or> d = 4 \<or> d = 5 \<or> d = 6 \<or> d = 7 \<or> d = 8 \<or> d = 9"
    by arith
  then show ?thesis
    by (elim disjE) (simp_all add: digit_char_def is_digit_def code_point_def)
qed

lemma str_nat_digits: "list_all is_digit (str_nat n) \<and> str_nat n \<noteq> []"
proof (induction n rule: str_nat.induct)
  case (1 n)
  show ?case
  proof (cases "n < 10")
    case True
    then show ?thesis by (subst str_nat.simps, subst str_nat.simps) (simp add: digit_char_is_digit)
  next
    case False
    with 1 show ?thesis
      by (subst str_nat.simps, subst (2) str_nat.simps) (simp add: digit_char_is_digit)
  qed
qed

lemma pad_digits_digits: "list_all is_digit (pad_digits k n) \<and> length (pad_digits k n) = k"
  by (induction k arbitrary: n) (simp_all add: digit_char_is_digit)

lemma digit_not_point: "is_digit c \<Longrightarrow> c \<noteq> CHR ''.''"
  by (auto simp: is_digit_def code_point_def)

lemma digit_plain: "is_digit c \<Longrightarrow> \<not> is_special c \<and> \<not> is_space c"
  by (auto simp: is_digit_def is_special_def is_space_def code_point_def COMMA_def DQUOTE_def
      CR_def LF_def)

lemma fraction_digits_after:
  "CHR ''.'' \<notin> set pre \<Longrightarrow> fraction_digits (pre @ CHR ''.'' # fs) = Some fs"
  by (simp add: fraction_digits_def dropWhile_append)

lemma num_char_plain: "num_char c \<Longrightarrow> \<not> is_special c \<and> \<not> is_space c"
  using digit_plain[of c]
  by (auto simp: num_char_def is_special_def is_space_def code_point_def COMMA_def DQUOTE_def
      CR_def LF_def)

lemma format_f_num_chars: "list_all num_char (format_f k (Finite s m e)) \<and> format_f k (Finite s m e) \<noteq> []"
proof -
  have a: "list_all is_digit xs \<Longrightarrow> list_all num_char xs" for xs
    by (induction xs) (auto simp: num_char_def)
  show ?thesis
    using str_nat_digits a[OF conjunct1[OF str_nat_digits]] a[OF conjunct1[OF pad_digits_digits]]
    by (simp add: Let_def num_char_def)
qed

lemma escape_num_text:
  assumes "t \<noteq> []" "list_all num_char t"
  shows "escape_csv R (PStr t) None = t"
proof -
  from assms(2) have ns: "\<not> list_ex is_special t"
    using num_char_plain by (auto simp: list_ex_iff list_all_iff)
  have "\<not> is_space (hd t)" "\<not> is_space (last t)"
    using assms num_char_plain by (auto simp: list_all_iff)
  with assms(1) have "strip t = t" by (simp add: strip_no_space_ends)
  with ns assms(1) show ?thesis by (simp add: escape_str_plain)
qed

lemma float_val_frac:
  "float_val (Finite s m e) =
     (if s then - 1 else 1) * real (float_num m e) / real (float_den e)"
proof (cases "0 \<le> e")
  case True
  then show ?thesis by (simp add: float_num_def float_den_def power_int_def)
next
  case False
  then show ?thesis
    by (simp add: float_num_def float_den_def power_int_def field_simps)
qed

lemma float_lt_int_val:
  "float_lt_int (Finite s m e) c \<longleftrightarrow> float_val (Finite s m e) < real_of_int c"
proof -
  have d: "0 < real (float_den e)" by (simp add: float_den_def)
  have "float_val (Finite s m e) < real_of_int c \<longleftrightarrow>
        (if s then - 1 else 1) * real (float_num m e) < real_of_int c * real (float_den e)"
    unfolding float_val_frac using d by (simp add: pos_divide_less_eq)
  also have "\<dots> \<longleftrightarrow> real_of_int (if s then - int (float_num m e) else int (float_num m e))
        < real_of_int (c * int (float_den e))"
    by simp
  also have "\<dots> \<longleftrightarrow> float_lt_int (Finite s m e) c"
    unfolding of_int_less_iff by simp
  finally show ?thesis by simp
qed

lemma round_half_even_nearest:
  assumes "0 < den"
  shows "2 * \<bar>int (round_half_even num den) * int den - int num\<bar> \<le> int den"
proof -
  let ?q = "num div den" and ?r = "num mod den"
  have n: "int num = int ?q * int den + int ?r"
    by (metis div_mult_mod_eq of_nat_add of_nat_mult)
  have r: "?r < den" using assms by simp
  show ?thesis
  proof (cases "den < 2 * ?r \<or> (2 * ?r = den \<and> odd ?q)")
    case True
    then have "round_half_even num den = ?q + 1" by (simp add: round_half_even_def Let_def)
    then have "int (round_half_even num den) * int den - int num = int den - int ?r"
      using n by (simp add: algebra_simps)
    with True r show ?thesis by auto
  next
    case False
    then have "round_half_even num den = ?q" by (simp add: round_half_even_def Let_def)
    then have "int (round_half_even num den) * int den - int num = - int ?r"
      using n by simp
    with False show ?thesis by auto
  qed
qed

lemma pad_digits_numeral:
  "pad_digits (numeral k) n = pad_digits (pred_numeral k) (n div 10) @ [digit_char (n mod 10)]"
proof -
  have "pad_digits (Suc (pred_numeral k)) n =
        pad_digits (pred_numeral k) (n div 10) @ [digit_char (n mod 10)]"
    by (rule pad_digits.simps(2))
  then show ?thesis by (simp only: numeral_eq_Suc[symmetric])
qed

lemmas float_eval =
  float_num_def float_den_def round_half_even_def Let_def digit_char_def pad_digits_numeral
  str_nat.simps

lemma format_seconds_examples:
  "format_seconds (PFloat (Finite False 1 (- 1))) = PStr ''0.500''"
  "format_seconds (PFloat (Finite False 21 (- 2))) = PStr ''5.25''"
  "format_seconds (PFloat (Finite False 3473401212609495 (- 48))) = PStr ''12.3''"
  by (simp_all add: float_eval)

subsection \<open>Canonical JSON\<close>

lemma filter_key_distinct:
  "distinct (map fst xs) \<Longrightarrow> k \<in> set xs \<Longrightarrow> filter (\<lambda>x. fst k = fst x) xs = [k]"
proof (induction xs)
  case Nil
  then show ?case by simp
next
  case (Cons a xs)
  show ?case
  proof (cases "k = a")
    case True
    with Cons.prems have "\<forall>x \<in> set xs. fst k \<noteq> fst x" by (auto simp: image_iff)
    then have "filter (\<lambda>x. fst k = fst x) xs = []" by (simp add: filter_empty_conv)
    with True show ?thesis by simp
  next
    case False
    with Cons.prems have "k \<in> set xs" "fst k \<noteq> fst a" by (auto simp: image_iff)
    with Cons show ?thesis by simp
  qed
qed

lemma sort_key_insertion_order:
  assumes "distinct (map fst a)" "mset a = mset b"
  shows "sort_key fst a = sort_key fst b"
proof (rule properties_for_sort_key)
  show "mset (sort_key fst b) = mset a" using assms(2) by simp
  show "sorted (map fst (sort_key fst b))" by simp
  fix k assume k: "k \<in> set (sort_key fst b)"
  have "mset (map fst (sort_key fst b)) = mset (map fst a)"
    using assms(2) by (metis mset_map mset_sort)
  with assms(1) have d: "distinct (map fst (sort_key fst b))"
    by (metis mset_eq_imp_distinct_iff)
  have "k \<in> set a" using k assms(2) by (metis mset_eq_setD set_sort)
  with assms(1) have "filter (\<lambda>x. fst k = fst x) a = [k]" by (rule filter_key_distinct)
  moreover from d k have "filter (\<lambda>x. fst k = fst x) (sort_key fst b) = [k]"
    by (rule filter_key_distinct)
  ultimately show "filter (\<lambda>x. fst k = fst x) (sort_key fst b) = filter (\<lambda>x. fst k = fst x) a"
    by simp
qed

lemma json_dumps_insertion_order:
  "distinct (map fst a) \<Longrightarrow> mset a = mset b \<Longrightarrow> json_dumps R (PDict a) = json_dumps R (PDict b)"
  by (simp add: json_dumps.simps sort_key_insertion_order[of a b])

lemma json_example:
  "json_dumps R (PDict [(''b'', PInt 1), (''a'', PInt 2)]) =
     ''{'' @ [DQUOTE] @ ''a'' @ [DQUOTE] @ '':2,'' @ [DQUOTE] @ ''b'' @ [DQUOTE] @ '':1}''"
  "json_dumps R (PDict [(''a'', PInt 2), (''b'', PInt 1)]) =
     ''{'' @ [DQUOTE] @ ''a'' @ [DQUOTE] @ '':2,'' @ [DQUOTE] @ ''b'' @ [DQUOTE] @ '':1}''"
  by code_simp+

lemma insort_key_map_keep:
  "(\<And>x. fst (g x) = fst x) \<Longrightarrow>
   insort_key fst (g x) (map g ys) = map g (insort_key fst x ys)"
  by (induction ys) simp_all

lemma sort_key_map_keep:
  "(\<And>x. fst (g x) = fst x) \<Longrightarrow> sort_key fst (map g xs) = map g (sort_key fst xs)"
  by (induction xs) (simp_all add: insort_key_map_keep)

lemma json_dumps_canon: "json_dumps R (canon v) = json_dumps R v"
proof (induction v)
  case (PList xs)
  then have "map (json_dumps R) (map canon xs) = map (json_dumps R) xs" by simp
  then show ?case by (simp add: json_dumps.simps del: map_map)
next
  case (PDict kvs)
  let ?g = "\<lambda>(k, v). (k, canon v)"
  let ?item = "\<lambda>(k, v). json_str k @ '':'' @ json_dumps R v"
  have g: "\<And>x. fst (?g x) = fst x" by (simp add: case_prod_beta)
  have s: "sort_key fst (map ?g kvs) = map ?g (sort_key fst kvs)"
    using g by (rule sort_key_map_keep)
  have "sorted (map fst (sort_key fst (map ?g kvs)))" by simp
  then have i: "sort_key fst (sort_key fst (map ?g kvs)) = sort_key fst (map ?g kvs)"
    by (rule sort_key_id_if_sorted)
  have si: "sort_key fst (sort_key fst (map ?g kvs)) = map ?g (sort_key fst kvs)"
    using i s by (rule trans)
  have m: "map ?item (map ?g (sort_key fst kvs)) = map ?item (sort_key fst kvs)"
  proof -
    have "?item (?g x) = ?item x" if "x \<in> set (sort_key fst kvs)" for x
    proof -
      obtain k v where x: "x = (k, v)" by (cases x)
      with that have "(k, v) \<in> set kvs" by simp
      then have "json_dumps R (canon v) = json_dumps R v"
        using PDict.IH[of "(k, v)" v] by simp
      with x show ?thesis by simp
    qed
    then show ?thesis by simp
  qed
  have "json_dumps R (canon (PDict kvs)) =
      ''{'' @ join '','' (map ?item (sort_key fst (sort_key fst (map ?g kvs)))) @ ''}''"
    by (simp only: canon.simps json_dumps.simps)
  also have "\<dots> = ''{'' @ join '','' (map ?item (map ?g (sort_key fst kvs))) @ ''}''"
    by (simp only: si)
  also have "\<dots> = ''{'' @ join '','' (map ?item (sort_key fst kvs)) @ ''}''"
    by (simp only: m)
  also have "\<dots> = json_dumps R (PDict kvs)"
    by (simp only: json_dumps.simps)
  finally show ?case .
qed simp_all

lemma dict_row_coerced:
  assumes "distinct (map fst d)"
    and "csv_line R sh er di se de si jm (CountsDict d) False = (after, Inr line)"
  shows "\<exists>d'. after = CountsDict d' \<and> list_all2 coerced d d'"
proof (cases "d = []")
  case True
  with assms(2) show ?thesis by (simp add: csv_line_data)
next
  case False
  note p = prepare_counts_dict[OF False assms(1), of R]
  from assms(2) have a: "after = CountsDict (snd (coerce_items d))"
    and ok: "fst (coerce_items d) = None"
    by (auto simp: csv_line_data p simp del: prepare_counts.simps split: option.splits)
  from coerce_items_ok[OF ok] a show ?thesis by blast
qed

lemma unescape_padded:
  assumes "0 < n"
  shows "unescape_field (replicate n SPACE @ csv_quote s) \<noteq> s"
proof -
  let ?f = "replicate n SPACE @ csv_quote s"
  from assms obtain n' where n: "n = Suc n'" by (cases n) auto
  have "hd ?f = SPACE" by (simp add: n)
  then have u: "unescape_field ?f = ?f" by (simp add: unescape_field_def)
  have l: "length s < length ?f" using csv_quote_longer[of s] by simp
  show ?thesis
  proof
    assume "unescape_field ?f = s"
    with u have "?f = s" by simp
    then have "length ?f = length s" by (rule arg_cong)
    with l show False by simp
  qed
qed

lemma lstrip_escape_quoted:
  "list_ex is_special s \<Longrightarrow> unescape_field (lstrip (escape_csv R (PStr s) w)) = s"
proof (cases w)
  case None
  assume "list_ex is_special s"
  then have "escape_csv R (PStr s) None = csv_quote s" by (simp add: escape_str_quoted)
  moreover have "lstrip (csv_quote s) = csv_quote s" by (simp add: lstrip_def csv_quote_def)
  ultimately show ?thesis using None by (simp add: unescape_csv_quote)
next
  case (Some a)
  assume "list_ex is_special s"
  then have "escape_csv R (PStr s) None = csv_quote s" by (simp add: escape_str_quoted)
  then show ?thesis using Some by (simp add: escape_csv_Some lstrip_rjust_quote unescape_csv_quote)
qed

lemma csv_line_None_row:
  "csv_line R sh er di se de si jm CountsNone False =
     (CountsNone, Inr (join [COMMA] (escaped_fields R sh er di se de si jm @ [[]])))"
  by (simp add: csv_line_data)

lemma coerce_items_all_ok:
  "\<forall>(k, v) \<in> set d. \<exists>i. py_int v = Inr i \<Longrightarrow> fst (coerce_items d) = None"
  by (induction d rule: coerce_items.induct) (auto split: sum.splits prod.splits)

lemma py_int_finite_float:
  "py_int (PFloat (Finite s m e)) =
     Inr ((if s then - 1 else 1) * \<lfloor>\<bar>float_val (Finite s m e)\<bar>\<rfloor>)"
proof -
  have "\<bar>float_val (Finite s m e)\<bar> = real (float_num m e) / real (float_den e)"
    by (simp add: float_val_frac abs_mult del: float_val.simps)
  then have "\<lfloor>\<bar>float_val (Finite s m e)\<bar>\<rfloor> = int (float_num m e div float_den e)"
    by (simp add: floor_divide_of_nat_eq)
  then show ?thesis by (simp add: Let_def)
qed

lemma py_int_text: "(\<exists>i. py_int (PStr t) = Inr i) \<or> py_int (PStr t) = Inl ValueError"
  by (simp add: parse_int_def Let_def split: option.splits)

lemma digit_not_sign_or_space:
  "is_digit c \<Longrightarrow> \<not> is_int_space c \<and> c \<noteq> CHR ''-'' \<and> c \<noteq> CHR ''+''"
  by (auto simp: is_digit_def is_int_space_def code_point_def)

lemma int_refuses_long_literal:
  assumes "list_all is_digit s" "MAX_STR_DIGITS < length s"
  shows "py_int (PStr s) = Inl ValueError"
proof -
  from assms(2) have ne: "s \<noteq> []" by auto
  with assms(1) have h: "is_digit (hd s)" and l: "is_digit (last s)"
    by (auto simp: list_all_iff)
  have 1: "dropWhile is_int_space s = s"
    using ne h digit_not_sign_or_space[of "hd s"] by (cases s) simp_all
  have 2: "dropWhile is_int_space (rev s) = rev s"
    using ne l digit_not_sign_or_space[of "last s"] by (cases "rev s") (simp_all add: last_rev hd_rev)
  have 3: "filter is_digit s = s" using assms(1) by (simp add: list_all_iff)
  show ?thesis
    using ne h digit_not_sign_or_space[of "hd s"] assms(2)
    by (simp add: parse_int_def 1 2 3 Let_def split: option.splits)
qed

section \<open>The claims\<close>

text \<open>
  C1, as amended. For a non-empty \<^verbatim>\<open>custom_counts\<close> mapping (in a data row that is
  produced), the custom_counts column is CSV-escaped exactly once: it is the canonical JSON
  text of the coerced mapping wrapped in quotes with its quotes doubled, as the
  pre-formatting step leaves it. The final escaping pass does not touch it; escaping it a
  second time would give a different text.
\<close>

theorem custom_counts_escaped_once:
  assumes "d \<noteq> []"
    and "csv_line R sh er di se de si jm (CountsDict d) False = (after, Inr line)"
  shows "\<exists>d'. after = CountsDict d' \<and>
           split_fields line ! 7 = escape_csv R (PStr (json_dumps R (PDict d'))) None \<and>
           split_fields line ! 7 = csv_quote (json_dumps R (PDict d')) \<and>
           length (split_fields line) = 8 \<and>
           escape_csv R (PStr (split_fields line ! 7)) None \<noteq> split_fields line ! 7"
proof -
  from csv_line_row[OF assms(2)] obtain c where
    p: "prepare_counts R (CountsDict d) = (after, Inr c)" and
    s: "split_fields line = escaped_fields R sh er di se de si jm @ [c]" by blast
  from prepare_counts_nonempty_dict[OF assms(1) p] obtain d' where
    d: "after = CountsDict d'" "c = escape_csv R (PStr (json_dumps R (PDict d'))) None"
       "c = csv_quote (json_dumps R (PDict d'))" by blast
  have c: "split_fields line ! 7 = c" by (simp add: s nth_append)
  have "escape_csv R (PStr c) None = csv_quote c"
    unfolding d(3) by (rule escape_quoted_again)
  then have "escape_csv R (PStr c) None \<noteq> c"
    using csv_quote_longer[of c] by auto
  with d c s show ?thesis by auto
qed

theorem custom_counts_escaped_once_witness:
  "[(''x'', PFloat (Finite False 3 0)), (''y'', PInt 1)] \<noteq> [] \<and>
   csv_line repr0 (PInt 100) (PInt 3) (PInt 0) (PStr ''1.5'') (PStr ''pymatching'') (PStr ''abc'')
     PNone (CountsDict [(''x'', PFloat (Finite False 3 0)), (''y'', PInt 1)]) False =
     (CountsDict [(''x'', PInt 3), (''y'', PInt 1)],
      Inr (''       100,         3,         0,     1.5,pymatching,abc,null,'' @
           [DQUOTE] @ ''{'' @ [DQUOTE, DQUOTE] @ ''x'' @ [DQUOTE, DQUOTE] @ '':3,'' @
           [DQUOTE, DQUOTE] @ ''y'' @ [DQUOTE, DQUOTE] @ '':1}'' @ [DQUOTE])) \<and>
   (\<exists>d'. CountsDict [(''x'', PInt 3), (''y'', PInt 1)] = CountsDict d' \<and>
      split_fields (''       100,         3,         0,     1.5,pymatching,abc,null,'' @
           [DQUOTE] @ ''{'' @ [DQUOTE, DQUOTE] @ ''x'' @ [DQUOTE, DQUOTE] @ '':3,'' @
           [DQUOTE, DQUOTE] @ ''y'' @ [DQUOTE, DQUOTE] @ '':1}'' @ [DQUOTE]) ! 7 =
        csv_quote (json_dumps repr0 (PDict d')))"
proof -
  have h1: "[(''x'', PFloat (Finite False 3 0)), (''y'', PInt 1)] \<noteq> []" by simp
  have h2: "csv_line repr0 (PInt 100) (PInt 3) (PInt 0) (PStr ''1.5'') (PStr ''pymatching'')
     (PStr ''abc'') PNone (CountsDict [(''x'', PFloat (Finite False 3 0)), (''y'', PInt 1)]) False =
     (CountsDict [(''x'', PInt 3), (''y'', PInt 1)],
      Inr (''       100,         3,         0,     1.5,pymatching,abc,null,'' @
           [DQUOTE] @ ''{'' @ [DQUOTE, DQUOTE] @ ''x'' @ [DQUOTE, DQUOTE] @ '':3,'' @
           [DQUOTE, DQUOTE] @ ''y'' @ [DQUOTE, DQUOTE] @ '':1}'' @ [DQUOTE]))"
    by code_simp
  from custom_counts_escaped_once[OF h1 h2] have
    "\<exists>d'. CountsDict [(''x'', PInt 3), (''y'', PInt 1)] = CountsDict d' \<and>
      split_fields (''       100,         3,         0,     1.5,pymatching,abc,null,'' @
           [DQUOTE] @ ''{'' @ [DQUOTE, DQUOTE] @ ''x'' @ [DQUOTE, DQUOTE] @ '':3,'' @
           [DQUOTE, DQUOTE] @ ''y'' @ [DQUOTE, DQUOTE] @ '':1}'' @ [DQUOTE]) ! 7 =
        csv_quote (json_dumps repr0 (PDict d'))"
    by blast
  with h1 h2 show ?thesis by blast
qed

theorem custom_counts_double_escape_counterexample:
  "snd (csv_line repr0 (PInt 100) (PInt 3) (PInt 0) (PStr ''1.5'') (PStr ''pymatching'')
     (PStr ''abc'') PNone (CountsDict [(''x'', PFloat (Finite False 3 0)), (''y'', PInt 1)]) False) =
     Inr (''       100,         3,         0,     1.5,pymatching,abc,null,'' @
          escape_csv repr0 (PStr (''{'' @ [DQUOTE] @ ''x'' @ [DQUOTE] @ '':3,'' @ [DQUOTE] @ ''y'' @
             [DQUOTE] @ '':1}'')) None) \<and>
   escape_csv repr0 (PStr (''{'' @ [DQUOTE] @ ''x'' @ [DQUOTE] @ '':3,'' @ [DQUOTE] @ ''y'' @
             [DQUOTE] @ '':1}'')) None =
     [DQUOTE] @ ''{'' @ [DQUOTE, DQUOTE] @ ''x'' @ [DQUOTE, DQUOTE] @ '':3,'' @
     [DQUOTE, DQUOTE] @ ''y'' @ [DQUOTE, DQUOTE] @ '':1}'' @ [DQUOTE] \<and>
   escape_csv repr0 (PStr (escape_csv repr0 (PStr (''{'' @ [DQUOTE] @ ''x'' @ [DQUOTE] @ '':3,'' @
             [DQUOTE] @ ''y'' @ [DQUOTE] @ '':1}'')) None)) None \<noteq>
   escape_csv repr0 (PStr (''{'' @ [DQUOTE] @ ''x'' @ [DQUOTE] @ '':3,'' @ [DQUOTE] @ ''y'' @
             [DQUOTE] @ '':1}'')) None"
  by code_simp

text \<open>
  C2, as amended. \<^verbatim>\<open>escape_csv(value, width)\<close> takes the text of the value (a text as it
  is, \<^verbatim>\<open>None\<close> as the empty text, anything else through \<^verbatim>\<open>str()\<close>) and writes it as one
  CSV field: in quotes with the inner quotes doubled exactly when the text holds a comma, a
  quote, CR or LF, or is empty; as it is otherwise. It then strips all whitespace from both
  ends of the record. That removes the record terminator and leaves a quoted field
  untouched, but an unquoted field loses its own leading and trailing whitespace; it is
  unchanged only when it neither starts nor ends with whitespace. With a width, the result
  is padded with spaces on the left up to that width.
\<close>

theorem escape_csv_strips_whitespace:
  "(csv_text R v = [] \<or> list_ex is_special (csv_text R v) \<longrightarrow>
      escape_csv R v None = DQUOTE # double_quotes (csv_text R v) @ [DQUOTE]) \<and>
   (csv_text R v \<noteq> [] \<and> \<not> list_ex is_special (csv_text R v) \<longrightarrow>
      escape_csv R v None = strip (csv_text R v) \<and>
      \<not> list_ex is_special (escape_csv R v None)) \<and>
   (csv_text R v \<noteq> [] \<and> \<not> list_ex is_special (csv_text R v) \<and>
    \<not> is_space (hd (csv_text R v)) \<and> \<not> is_space (last (csv_text R v)) \<longrightarrow>
      escape_csv R v None = csv_text R v) \<and>
   escape_csv R v (Some w) =
      replicate (nat (w - int (length (escape_csv R v None)))) SPACE @ escape_csv R v None \<and>
   (escape_csv R v None \<noteq> [] \<longrightarrow>
      \<not> is_space (hd (escape_csv R v None)) \<and> \<not> is_space (last (escape_csv R v None)))"
proof -
  let ?t = "csv_text R v"
  have 1: "?t = [] \<or> list_ex is_special ?t \<longrightarrow>
      escape_csv R v None = DQUOTE # double_quotes ?t @ [DQUOTE]"
    using escape_csv_quoted[of R v] by (simp add: csv_quote_def)
  have 2: "?t \<noteq> [] \<and> \<not> list_ex is_special ?t \<longrightarrow>
      escape_csv R v None = strip ?t \<and> \<not> list_ex is_special (escape_csv R v None)"
    using escape_csv_plain[of R v] strip_no_special[of ?t] by simp
  have 3: "?t \<noteq> [] \<and> \<not> list_ex is_special ?t \<and>
    \<not> is_space (hd ?t) \<and> \<not> is_space (last ?t) \<longrightarrow> escape_csv R v None = ?t"
    using escape_csv_plain[of R v] strip_no_space_ends[of ?t] by simp
  have 4: "escape_csv R v (Some w) =
      replicate (nat (w - int (length (escape_csv R v None)))) SPACE @ escape_csv R v None"
    by (simp add: escape_csv_Some rjust_def)
  have 5: "escape_csv R v None \<noteq> [] \<longrightarrow>
      \<not> is_space (hd (escape_csv R v None)) \<and> \<not> is_space (last (escape_csv R v None))"
  proof
    assume n: "escape_csv R v None \<noteq> []"
    let ?f = "csv_field ?t"
    have e: "escape_csv R v None = strip ?f" by (rule escape_csv_None)
    have l: "\<not> is_space (last (strip ?f))" using n e strip_last[of ?f] by simp
    have "strip ?f = rev (dropWhile is_space (rev (lstrip ?f)))"
      by (simp add: strip_def rstrip_def)
    with n e have "lstrip ?f \<noteq> []" by auto
    then have h: "\<not> is_space (hd (lstrip ?f))"
      unfolding lstrip_def by (rule hd_dropWhile)
    have "hd (strip ?f) = hd (lstrip ?f)"
    proof -
      obtain a r where ar: "lstrip ?f = a # r" using \<open>lstrip ?f \<noteq> []\<close> by (cases "lstrip ?f") auto
      with h have na: "\<not> is_space a" by simp
      have "rstrip (a # r) = a # rstrip r"
        using na by (simp add: rstrip_def dropWhile_append split: if_splits)
      then show ?thesis by (simp add: strip_def ar)
    qed
    with h l e show "\<not> is_space (hd (escape_csv R v None)) \<and> \<not> is_space (last (escape_csv R v None))"
      by simp
  qed
  from 1 2 3 4 5 show ?thesis by blast
qed

theorem escape_csv_strips_whitespace_witness:
  "csv_text repr0 (PStr '' a b '') \<noteq> [] \<and> \<not> list_ex is_special (csv_text repr0 (PStr '' a b '')) \<and>
   escape_csv repr0 (PStr '' a b '') None = strip (csv_text repr0 (PStr '' a b '')) \<and>
   escape_csv repr0 (PStr '' a b '') None = ''a b'' \<and>
   list_ex is_special (csv_text repr0 (PStr ''a, b'')) \<and>
   escape_csv repr0 (PStr ''a, b'') None = DQUOTE # double_quotes (csv_text repr0 (PStr ''a, b'')) @ [DQUOTE] \<and>
   escape_csv repr0 (PStr ''ab'') (Some 5) = ''   ab''"
proof -
  have a: "csv_text repr0 (PStr '' a b '') \<noteq> [] \<and> \<not> list_ex is_special (csv_text repr0 (PStr '' a b ''))"
    by (simp add: is_special_def COMMA_def DQUOTE_def CR_def LF_def)
  have b: "list_ex is_special (csv_text repr0 (PStr ''a, b''))"
    by (simp add: is_special_def COMMA_def)
  have c: "escape_csv repr0 (PStr '' a b '') None = ''a b''" by code_simp
  have d: "escape_csv repr0 (PStr ''ab'') (Some 5) = ''   ab''" by code_simp
  from escape_csv_strips_whitespace[of repr0 "PStr '' a b ''"]
    escape_csv_strips_whitespace[of repr0 "PStr ''a, b''"] a b c d
  show ?thesis by blast
qed

theorem escape_csv_keeps_whitespace_counterexample:
  "escape_csv repr0 (PStr '' a b '') None = ''a b'' \<and> ''a b'' \<noteq> '' a b '' \<and>
   \<not> list_ex is_special [] \<and> escape_csv repr0 (PStr []) None = [DQUOTE, DQUOTE]"
  by code_simp

text \<open>
  C3, as amended. \<^verbatim>\<open>csv_line\<close> returns a fresh text and changes none of its arguments
  but \<^verbatim>\<open>custom_counts\<close>: in a data row with a non-empty mapping it replaces, in the
  caller's mapping, each value by \<^verbatim>\<open>int\<close> of it (keys and their order stay). The mapping
  is left as it was when the values are integers already, when it is empty or absent, when
  \<^verbatim>\<open>custom_counts\<close> is a text, and in a header call.
\<close>

theorem custom_counts_coerced_in_place:
  "fst (csv_line R sh er di se de si jm cc True) = cc \<and>
   (cc = CountsNone \<or> cc = CountsDict [] \<or> cc = CountsStr s \<longrightarrow>
      fst (csv_line R sh er di se de si jm cc False) = cc) \<and>
   (distinct (map fst d) \<and> (\<forall>(k, v) \<in> set d. \<exists>i. v = PInt i) \<longrightarrow>
      fst (csv_line R sh er di se de si jm (CountsDict d) False) = CountsDict d) \<and>
   (distinct (map fst d) \<and>
    csv_line R sh er di se de si jm (CountsDict d) False = (after, Inr line) \<longrightarrow>
      (\<exists>d'. after = CountsDict d' \<and> map fst d' = map fst d \<and> list_all2 coerced d d'))"
proof -
  have 1: "fst (csv_line R sh er di se de si jm cc True) = cc"
    by (simp add: csv_line_header)
  have 2: "cc = CountsNone \<or> cc = CountsDict [] \<or> cc = CountsStr s \<longrightarrow>
      fst (csv_line R sh er di se de si jm cc False) = cc"
    by (auto simp: csv_line_data)
  have 3: "fst (csv_line R sh er di se de si jm (CountsDict d) False) = CountsDict d"
    if "distinct (map fst d)" "\<forall>(k, v) \<in> set d. \<exists>i. v = PInt i"
  proof (cases "d = []")
    case True
    then show ?thesis by (simp add: csv_line_data)
  next
    case False
    from prepare_counts_dict[OF False that(1), of R] coerce_items_ints[OF that(2)]
    show ?thesis by (simp add: csv_line_data del: prepare_counts.simps)
  qed
  have 4: "\<exists>d'. after = CountsDict d' \<and> map fst d' = map fst d \<and> list_all2 coerced d d'"
    if "distinct (map fst d)"
       "csv_line R sh er di se de si jm (CountsDict d) False = (after, Inr line)"
  proof (cases "d = []")
    case True
    with that(2) show ?thesis by (simp add: csv_line_data)
  next
    case False
    note p = prepare_counts_dict[OF False that(1), of R]
    from that(2) have a: "after = CountsDict (snd (coerce_items d))"
      and ok: "fst (coerce_items d) = None"
      by (auto simp: csv_line_data p simp del: prepare_counts.simps split: option.splits)
    from coerce_items_ok[OF ok] coerce_items_keys[of d] a show ?thesis by blast
  qed
  from 1 2 3 4 show ?thesis by blast
qed

theorem custom_counts_coerced_in_place_witness:
  "distinct (map fst [(''x'', PFloat (Finite False 7 (- 1))), (''y'', PStr ''12'')]) \<and>
   csv_line repr0 (PInt 100) (PInt 3) (PInt 0) (PStr ''1.5'') (PStr ''pymatching'') (PStr ''abc'')
     PNone (CountsDict [(''x'', PFloat (Finite False 7 (- 1))), (''y'', PStr ''12'')]) False =
     (CountsDict [(''x'', PInt 3), (''y'', PInt 12)],
      Inr (''       100,         3,         0,     1.5,pymatching,abc,null,'' @
           [DQUOTE] @ ''{'' @ [DQUOTE, DQUOTE] @ ''x'' @ [DQUOTE, DQUOTE] @ '':3,'' @
           [DQUOTE, DQUOTE] @ ''y'' @ [DQUOTE, DQUOTE] @ '':12}'' @ [DQUOTE])) \<and>
   (\<exists>d'. CountsDict [(''x'', PInt 3), (''y'', PInt 12)] = CountsDict d' \<and>
      map fst d' = map fst [(''x'', PFloat (Finite False 7 (- 1))), (''y'', PStr ''12'')] \<and>
      list_all2 coerced [(''x'', PFloat (Finite False 7 (- 1))), (''y'', PStr ''12'')] d')"
proof -
  let ?d = "[(''x'', PFloat (Finite False 7 (- 1))), (''y'', PStr ''12'')]"
  have h1: "distinct (map fst ?d)" by simp
  have h2: "csv_line repr0 (PInt 100) (PInt 3) (PInt 0) (PStr ''1.5'') (PStr ''pymatching'')
     (PStr ''abc'') PNone (CountsDict ?d) False =
     (CountsDict [(''x'', PInt 3), (''y'', PInt 12)],
      Inr (''       100,         3,         0,     1.5,pymatching,abc,null,'' @
           [DQUOTE] @ ''{'' @ [DQUOTE, DQUOTE] @ ''x'' @ [DQUOTE, DQUOTE] @ '':3,'' @
           [DQUOTE, DQUOTE] @ ''y'' @ [DQUOTE, DQUOTE] @ '':12}'' @ [DQUOTE]))"
    by code_simp
  from custom_counts_coerced_in_place[of repr0 "PInt 100" "PInt 3" "PInt 0" "PStr ''1.5''"
      "PStr ''pymatching''" "PStr ''abc''" PNone "CountsDict ?d" "[]" ?d
      "CountsDict [(''x'', PInt 3), (''y'', PInt 12)]"] h1 h2
  have "\<exists>d'. CountsDict [(''x'', PInt 3), (''y'', PInt 12)] = CountsDict d' \<and>
      map fst d' = map fst ?d \<and> list_all2 coerced ?d d'"
    by blast
  with h1 h2 show ?thesis by blast
qed

theorem custom_counts_unmodified_counterexample:
  "fst (csv_line repr0 (PInt 100) (PInt 3) (PInt 0) (PStr ''1.5'') (PStr ''pymatching'')
     (PStr ''abc'') PNone (CountsDict [(''x'', PFloat (Finite False 7 (- 1))), (''y'', PStr ''12'')])
     False) = CountsDict [(''x'', PInt 3), (''y'', PInt 12)] \<and>
   CountsDict [(''x'', PInt 3), (''y'', PInt 12)] \<noteq>
   CountsDict [(''x'', PFloat (Finite False 7 (- 1))), (''y'', PStr ''12'')]"
  by code_simp

text \<open>
  C4, as amended. A text that contains a comma, a double quote or a newline (LF, or CR) and
  goes through the field escaper without a width, as the decoder and strong_id columns of
  a row do, comes back: the escaped text is a single field for a reader that splits at
  the commas outside quotes, and removing the surrounding quotes and collapsing the
  doubled quotes gives the original text exactly. With a width larger than the escaped
  text, as can happen in the shots, errors, discards and seconds columns, spaces stand
  before the opening quote: the field is still a single one, but unescaping it as it
  stands does not give the text back; unescaping it after the padding is dropped does. A
  row with such a text in its six text columns is produced, and a row is the columns
  joined by commas.
\<close>

theorem escape_round_trip:
  assumes "list_ex is_special s"
  shows "split_fields (escape_csv R (PStr s) None) = [escape_csv R (PStr s) None] \<and>
         unescape_field (escape_csv R (PStr s) None) = s \<and>
         escape_csv R (PStr s) (Some w) =
           replicate (nat (w - int (length (escape_csv R (PStr s) None)))) SPACE @
           escape_csv R (PStr s) None \<and>
         split_fields (escape_csv R (PStr s) (Some w)) = [escape_csv R (PStr s) (Some w)] \<and>
         unescape_field (lstrip (escape_csv R (PStr s) (Some w))) = s \<and>
         (w \<le> int (length (escape_csv R (PStr s) None)) \<longrightarrow>
            unescape_field (escape_csv R (PStr s) (Some w)) = s) \<and>
         (int (length (escape_csv R (PStr s) None)) < w \<longrightarrow>
            unescape_field (escape_csv R (PStr s) (Some w)) \<noteq> s) \<and>
         (csv_line R sh er di se de si jm cc False = (after, Inr line) \<longrightarrow>
            (de = PStr s \<longrightarrow> unescape_field (split_fields line ! 4) = s) \<and>
            (si = PStr s \<longrightarrow> unescape_field (split_fields line ! 5) = s) \<and>
            (sh = PStr s \<longrightarrow> unescape_field (lstrip (split_fields line ! 0)) = s) \<and>
            (er = PStr s \<longrightarrow> unescape_field (lstrip (split_fields line ! 1)) = s) \<and>
            (di = PStr s \<longrightarrow> unescape_field (lstrip (split_fields line ! 2)) = s) \<and>
            (se = PStr s \<longrightarrow> unescape_field (lstrip (split_fields line ! 3)) = s)) \<and>
         (\<exists>row. csv_line R (PStr s) (PStr s) (PStr s) (PStr s) (PStr s) (PStr s) jm CountsNone
                  False = (CountsNone, Inr row) \<and>
            length (split_fields row) = 8 \<and>
            unescape_field (split_fields row ! 4) = s \<and>
            unescape_field (split_fields row ! 5) = s \<and>
            unescape_field (lstrip (split_fields row ! 0)) = s \<and>
            unescape_field (lstrip (split_fields row ! 1)) = s \<and>
            unescape_field (lstrip (split_fields row ! 2)) = s \<and>
            unescape_field (lstrip (split_fields row ! 3)) = s)"
proof -
  let ?q = "escape_csv R (PStr s) None"
  have e: "?q = csv_quote s"
    using assms by (simp add: escape_str_quoted)
  have 1: "split_fields ?q = [?q]"
    by (rule split_fields_single) (rule field_ok_escape)
  have 2: "unescape_field ?q = s"
    by (simp add: e unescape_csv_quote)
  have 3: "escape_csv R (PStr s) (Some w) = replicate (nat (w - int (length ?q))) SPACE @ ?q"
    by (simp add: escape_csv_Some rjust_def)
  have 4: "split_fields (escape_csv R (PStr s) (Some w)) = [escape_csv R (PStr s) (Some w)]"
    by (rule split_fields_single) (rule field_ok_escape)
  have 5: "unescape_field (lstrip (escape_csv R (PStr s) x)) = s" for x
    using assms by (rule lstrip_escape_quoted)
  have 6: "w \<le> int (length ?q) \<longrightarrow> unescape_field (escape_csv R (PStr s) (Some w)) = s"
    using 2 by (simp add: 3)
  have 7: "int (length ?q) < w \<longrightarrow> unescape_field (escape_csv R (PStr s) (Some w)) \<noteq> s"
  proof
    assume "int (length ?q) < w"
    then have "0 < nat (w - int (length ?q))" by simp
    from unescape_padded[OF this, of s] show "unescape_field (escape_csv R (PStr s) (Some w)) \<noteq> s"
      unfolding 3 e .
  qed
  have d: "dump_errors R (PStr s) = PStr s" "format_seconds (PStr s) = PStr s" by simp_all
  have 8: "(de = PStr s \<longrightarrow> unescape_field (split_fields line ! 4) = s) \<and>
            (si = PStr s \<longrightarrow> unescape_field (split_fields line ! 5) = s) \<and>
            (sh = PStr s \<longrightarrow> unescape_field (lstrip (split_fields line ! 0)) = s) \<and>
            (er = PStr s \<longrightarrow> unescape_field (lstrip (split_fields line ! 1)) = s) \<and>
            (di = PStr s \<longrightarrow> unescape_field (lstrip (split_fields line ! 2)) = s) \<and>
            (se = PStr s \<longrightarrow> unescape_field (lstrip (split_fields line ! 3)) = s)"
    if "csv_line R sh er di se de si jm cc False = (after, Inr line)"
  proof -
    from csv_line_row[OF that] obtain c where
      "split_fields line = escaped_fields R sh er di se de si jm @ [c]" by blast
    then have "split_fields line ! 4 = escape_csv R de None"
      "split_fields line ! 5 = escape_csv R si None"
      "split_fields line ! 0 = escape_csv R sh (Some 10)"
      "split_fields line ! 1 = escape_csv R (dump_errors R er) (Some 10)"
      "split_fields line ! 2 = escape_csv R di (Some 10)"
      "split_fields line ! 3 = escape_csv R (format_seconds se) (Some 8)"
      by (simp_all add: escaped_fields_def)
    with 2 5 d show ?thesis by simp
  qed
  let ?row = "join [COMMA]
      (escaped_fields R (PStr s) (PStr s) (PStr s) (PStr s) (PStr s) (PStr s) jm @ [[]])"
  have r: "csv_line R (PStr s) (PStr s) (PStr s) (PStr s) (PStr s) (PStr s) jm CountsNone False =
      (CountsNone, Inr ?row)"
    by (rule csv_line_None_row)
  from csv_line_row[OF r] have
    s8: "split_fields ?row =
      escaped_fields R (PStr s) (PStr s) (PStr s) (PStr s) (PStr s) (PStr s) jm @ [[]]"
    by auto
  have 9: "length (split_fields ?row) = 8 \<and>
            unescape_field (split_fields ?row ! 4) = s \<and>
            unescape_field (split_fields ?row ! 5) = s \<and>
            unescape_field (lstrip (split_fields ?row ! 0)) = s \<and>
            unescape_field (lstrip (split_fields ?row ! 1)) = s \<and>
            unescape_field (lstrip (split_fields ?row ! 2)) = s \<and>
            unescape_field (lstrip (split_fields ?row ! 3)) = s"
    unfolding s8 using 2 5 by (simp add: escaped_fields_def)
  from r 9 have 10: "\<exists>row. csv_line R (PStr s) (PStr s) (PStr s) (PStr s) (PStr s) (PStr s) jm
        CountsNone False = (CountsNone, Inr row) \<and>
            length (split_fields row) = 8 \<and>
            unescape_field (split_fields row ! 4) = s \<and>
            unescape_field (split_fields row ! 5) = s \<and>
            unescape_field (lstrip (split_fields row ! 0)) = s \<and>
            unescape_field (lstrip (split_fields row ! 1)) = s \<and>
            unescape_field (lstrip (split_fields row ! 2)) = s \<and>
            unescape_field (lstrip (split_fields row ! 3)) = s"
    by blast
  from 1 2 3 4 5[of "Some w"] 6 7 8 10 show ?thesis by blast
qed

theorem escape_round_trip_witness:
  "list_ex is_special ''a,b'' \<and>
   csv_line repr0 (PStr ''a,b'') (PStr ''a,b'') (PStr ''a,b'') (PStr ''a,b'') (PStr ''a,b'')
     (PStr ''a,b'') PNone CountsNone False =
     (CountsNone,
      Inr (''     '' @ [DQUOTE] @ ''a,b'' @ [DQUOTE] @ '',     '' @ [DQUOTE] @ ''a,b'' @ [DQUOTE] @
           '',     '' @ [DQUOTE] @ ''a,b'' @ [DQUOTE] @ '',   '' @ [DQUOTE] @ ''a,b'' @ [DQUOTE] @
           '','' @ [DQUOTE] @ ''a,b'' @ [DQUOTE] @ '','' @ [DQUOTE] @ ''a,b'' @ [DQUOTE] @
           '',null,'')) \<and>
   unescape_field (split_fields
        (''     '' @ [DQUOTE] @ ''a,b'' @ [DQUOTE] @ '',     '' @ [DQUOTE] @ ''a,b'' @ [DQUOTE] @
           '',     '' @ [DQUOTE] @ ''a,b'' @ [DQUOTE] @ '',   '' @ [DQUOTE] @ ''a,b'' @ [DQUOTE] @
           '','' @ [DQUOTE] @ ''a,b'' @ [DQUOTE] @ '','' @ [DQUOTE] @ ''a,b'' @ [DQUOTE] @
           '',null,'') ! 4) = ''a,b'' \<and>
   unescape_field (split_fields
        (''     '' @ [DQUOTE] @ ''a,b'' @ [DQUOTE] @ '',     '' @ [DQUOTE] @ ''a,b'' @ [DQUOTE] @
           '',     '' @ [DQUOTE] @ ''a,b'' @ [DQUOTE] @ '',   '' @ [DQUOTE] @ ''a,b'' @ [DQUOTE] @
           '','' @ [DQUOTE] @ ''a,b'' @ [DQUOTE] @ '','' @ [DQUOTE] @ ''a,b'' @ [DQUOTE] @
           '',null,'') ! 5) = ''a,b'' \<and>
   unescape_field (lstrip (split_fields
        (''     '' @ [DQUOTE] @ ''a,b'' @ [DQUOTE] @ '',     '' @ [DQUOTE] @ ''a,b'' @ [DQUOTE] @
           '',     '' @ [DQUOTE] @ ''a,b'' @ [DQUOTE] @ '',   '' @ [DQUOTE] @ ''a,b'' @ [DQUOTE] @
           '','' @ [DQUOTE] @ ''a,b'' @ [DQUOTE] @ '','' @ [DQUOTE] @ ''a,b'' @ [DQUOTE] @
           '',null,'') ! 0)) = ''a,b'' \<and>
   unescape_field (lstrip (split_fields
        (''     '' @ [DQUOTE] @ ''a,b'' @ [DQUOTE] @ '',     '' @ [DQUOTE] @ ''a,b'' @ [DQUOTE] @
           '',     '' @ [DQUOTE] @ ''a,b'' @ [DQUOTE] @ '',   '' @ [DQUOTE] @ ''a,b'' @ [DQUOTE] @
           '','' @ [DQUOTE] @ ''a,b'' @ [DQUOTE] @ '','' @ [DQUOTE] @ ''a,b'' @ [DQUOTE] @
           '',null,'') ! 1)) = ''a,b'' \<and>
   unescape_field (lstrip (split_fields
        (''     '' @ [DQUOTE] @ ''a,b'' @ [DQUOTE] @ '',     '' @ [DQUOTE] @ ''a,b'' @ [DQUOTE] @
           '',     '' @ [DQUOTE] @ ''a,b'' @ [DQUOTE] @ '',   '' @ [DQUOTE] @ ''a,b'' @ [DQUOTE] @
           '','' @ [DQUOTE] @ ''a,b'' @ [DQUOTE] @ '','' @ [DQUOTE] @ ''a,b'' @ [DQUOTE] @
           '',null,'') ! 2)) = ''a,b'' \<and>
   unescape_field (lstrip (split_fields
        (''     '' @ [DQUOTE] @ ''a,b'' @ [DQUOTE] @ '',     '' @ [DQUOTE] @ ''a,b'' @ [DQUOTE] @
           '',     '' @ [DQUOTE] @ ''a,b'' @ [DQUOTE] @ '',   '' @ [DQUOTE] @ ''a,b'' @ [DQUOTE] @
           '','' @ [DQUOTE] @ ''a,b'' @ [DQUOTE] @ '','' @ [DQUOTE] @ ''a,b'' @ [DQUOTE] @
           '',null,'') ! 3)) = ''a,b'' \<and>
   int (length (escape_csv repr0 (PStr ''a,b'') None)) < 10 \<and>
   unescape_field (escape_csv repr0 (PStr ''a,b'') (Some 10)) \<noteq> ''a,b'' \<and>
   unescape_field (lstrip (escape_csv repr0 (PStr ''a,b'') (Some 10))) = ''a,b'' \<and>
   unescape_field (escape_csv repr0 (PStr ''a,b'') None) = ''a,b''"
proof -
  let ?L = "''     '' @ [DQUOTE] @ ''a,b'' @ [DQUOTE] @ '',     '' @ [DQUOTE] @ ''a,b'' @ [DQUOTE] @
           '',     '' @ [DQUOTE] @ ''a,b'' @ [DQUOTE] @ '',   '' @ [DQUOTE] @ ''a,b'' @ [DQUOTE] @
           '','' @ [DQUOTE] @ ''a,b'' @ [DQUOTE] @ '','' @ [DQUOTE] @ ''a,b'' @ [DQUOTE] @
           '',null,''"
  have h: "list_ex is_special ''a,b''"
    by (simp add: is_special_def COMMA_def)
  have r: "csv_line repr0 (PStr ''a,b'') (PStr ''a,b'') (PStr ''a,b'') (PStr ''a,b'') (PStr ''a,b'')
     (PStr ''a,b'') PNone CountsNone False = (CountsNone, Inr ?L)"
    by code_simp
  have n: "int (length (escape_csv repr0 (PStr ''a,b'') None)) < 10"
    by code_simp
  note t = escape_round_trip[OF h, of repr0 10 "PStr ''a,b''" "PStr ''a,b''" "PStr ''a,b''"
      "PStr ''a,b''" "PStr ''a,b''" "PStr ''a,b''" PNone CountsNone CountsNone ?L]
  from t r n have
    "unescape_field (split_fields ?L ! 4) = ''a,b''"
    "unescape_field (split_fields ?L ! 5) = ''a,b''"
    "unescape_field (lstrip (split_fields ?L ! 0)) = ''a,b''"
    "unescape_field (lstrip (split_fields ?L ! 1)) = ''a,b''"
    "unescape_field (lstrip (split_fields ?L ! 2)) = ''a,b''"
    "unescape_field (lstrip (split_fields ?L ! 3)) = ''a,b''"
    "unescape_field (escape_csv repr0 (PStr ''a,b'') (Some 10)) \<noteq> ''a,b''"
    "unescape_field (lstrip (escape_csv repr0 (PStr ''a,b'') (Some 10))) = ''a,b''"
    "unescape_field (escape_csv repr0 (PStr ''a,b'') None) = ''a,b''"
    by blast+
  with h r n show ?thesis by blast
qed

theorem padded_round_trip_counterexample:
  "list_ex is_special ''a,b'' \<and>
   escape_csv repr0 (PStr ''a,b'') (Some 10) = ''     '' @ [DQUOTE] @ ''a,b'' @ [DQUOTE] \<and>
   split_fields (escape_csv repr0 (PStr ''a,b'') (Some 10)) =
     [''     '' @ [DQUOTE] @ ''a,b'' @ [DQUOTE]] \<and>
   unescape_field (''     '' @ [DQUOTE] @ ''a,b'' @ [DQUOTE]) = ''     '' @ [DQUOTE] @ ''a,b'' @ [DQUOTE] \<and>
   unescape_field (escape_csv repr0 (PStr ''a,b'') (Some 10)) \<noteq> ''a,b'' \<and>
   csv_line repr0 (PStr ''a,b'') (PInt 3) (PInt 0) (PStr ''1.5'') (PStr ''pymatching'') (PStr ''abc'')
     PNone CountsNone False =
     (CountsNone,
      Inr (''     '' @ [DQUOTE] @ ''a,b'' @ [DQUOTE] @
           '',         3,         0,     1.5,pymatching,abc,null,'')) \<and>
   unescape_field (split_fields (''     '' @ [DQUOTE] @ ''a,b'' @ [DQUOTE] @
           '',         3,         0,     1.5,pymatching,abc,null,'') ! 0) \<noteq> ''a,b''"
  by code_simp

text \<open>
  C5, as amended. A finite float \<^verbatim>\<open>seconds\<close> is rendered in fixed-point notation with 3
  digits after the point when it is below 1, with 2 digits when it is at least 1 and below
  10, and with 1 digit when it is at least 10 (0.5 gives 0.500, 5.25 gives 5.25, 12.34
  gives 12.3); that text, right-justified to 8 characters, is the seconds column of the
  row. An infinite \<^verbatim>\<open>seconds\<close> is rendered as inf or -inf and NaN as nan, with no digits
  after a point. A text \<^verbatim>\<open>seconds\<close> passes through the pre-formatting unchanged.
\<close>

theorem seconds_decimal_places:
  "format_seconds (PStr t) = PStr t \<and>
   (let x = Finite s m e;
        k = (if float_val x < 1 then 3 else if float_val x < 10 then 2 else (1::nat))
    in format_seconds (PFloat x) = PStr (format_f k x) \<and>
       (\<exists>fs. fraction_digits (format_f k x) = Some fs \<and> length fs = k \<and> list_all is_digit fs) \<and>
       escape_csv R (format_seconds (PFloat x)) (Some 8) = rjust 8 (format_f k x) \<and>
       (csv_line R sh er di (PFloat x) de si jm cc False = (after, Inr line) \<longrightarrow>
          split_fields line ! 3 = rjust 8 (format_f k x))) \<and>
   format_seconds (PFloat (Infinity b)) = PStr (if b then ''-inf'' else ''inf'') \<and>
   format_seconds (PFloat NaN) = PStr ''nan'' \<and>
   format_seconds (PFloat (Finite False 1 (- 1))) = PStr ''0.500'' \<and>
   format_seconds (PFloat (Finite False 21 (- 2))) = PStr ''5.25'' \<and>
   format_seconds (PFloat (Finite False 3473401212609495 (- 48))) = PStr ''12.3''"
proof -
  define x where "x = Finite s m e"
  define k where "k = (if float_val x < 1 then 3 else if float_val x < 10 then 2 else (1::nat))"
  have k0: "0 < k" by (simp add: k_def)
  have f: "format_seconds (PFloat x) = PStr (format_f k x)"
    using float_lt_int_val[of s m e 1] float_lt_int_val[of s m e 10]
    by (simp add: x_def k_def)
  define n where "n = round_half_even (float_num m e * 10 ^ k) (float_den e)"
  have ff: "format_f k x =
      ((if s then ''-'' else []) @ str_nat (n div 10 ^ k)) @ CHR ''.'' # pad_digits k (n mod 10 ^ k)"
    using k0 by (simp add: x_def n_def Let_def)
  have "CHR ''.'' \<notin> set ((if s then ''-'' else []) @ str_nat (n div 10 ^ k))"
    using conjunct1[OF str_nat_digits, of "n div 10 ^ k"] digit_not_point
    by (auto simp: list_all_iff)
  then have "fraction_digits (format_f k x) = Some (pad_digits k (n mod 10 ^ k))"
    unfolding ff by (rule fraction_digits_after)
  then have d: "\<exists>fs. fraction_digits (format_f k x) = Some fs \<and> length fs = k \<and>
      list_all is_digit fs"
    using pad_digits_digits[of k "n mod 10 ^ k"] by simp
  have "escape_csv R (PStr (format_f k x)) None = format_f k x"
    using format_f_num_chars[of k s m e] by (intro escape_num_text) (simp_all add: x_def)
  then have e: "escape_csv R (format_seconds (PFloat x)) (Some 8) = rjust 8 (format_f k x)"
    unfolding f by (simp add: escape_csv_Some)
  have r: "split_fields line ! 3 = rjust 8 (format_f k x)"
    if "csv_line R sh er di (PFloat x) de si jm cc False = (after, Inr line)"
  proof -
    from csv_line_row[OF that] obtain c where
      "split_fields line = escaped_fields R sh er di (PFloat x) de si jm @ [c]" by blast
    then have "split_fields line ! 3 = escape_csv R (format_seconds (PFloat x)) (Some 8)"
      by (simp add: escaped_fields_def del: format_seconds.simps)
    with e show ?thesis by simp
  qed
  have main: "let x = Finite s m e;
        k = (if float_val x < 1 then 3 else if float_val x < 10 then 2 else (1::nat))
    in format_seconds (PFloat x) = PStr (format_f k x) \<and>
       (\<exists>fs. fraction_digits (format_f k x) = Some fs \<and> length fs = k \<and> list_all is_digit fs) \<and>
       escape_csv R (format_seconds (PFloat x)) (Some 8) = rjust 8 (format_f k x) \<and>
       (csv_line R sh er di (PFloat x) de si jm cc False = (after, Inr line) \<longrightarrow>
          split_fields line ! 3 = rjust 8 (format_f k x))"
    unfolding Let_def x_def[symmetric] k_def[symmetric] using f d e r by blast
  have i: "format_seconds (PFloat (Infinity b)) = PStr (if b then ''-inf'' else ''inf'')"
    by simp
  from main i format_seconds_examples show ?thesis by simp
qed

theorem seconds_decimal_places_witness:
  "csv_line repr0 (PInt 100) (PInt 3) (PInt 0) (PFloat (Finite False 21 (- 2))) (PStr ''pymatching'')
     (PStr ''abc'') PNone CountsNone False =
     (CountsNone, Inr ''       100,         3,         0,    5.25,pymatching,abc,null,'') \<and>
   float_val (Finite False 21 (- 2)) = 21 / 4 \<and>
   format_seconds (PFloat (Finite False 21 (- 2))) = PStr (format_f 2 (Finite False 21 (- 2))) \<and>
   split_fields ''       100,         3,         0,    5.25,pymatching,abc,null,'' ! 3 =
     rjust 8 (format_f 2 (Finite False 21 (- 2))) \<and>
   fraction_digits ''5.25'' = Some ''25''"
proof -
  have h: "csv_line repr0 (PInt 100) (PInt 3) (PInt 0) (PFloat (Finite False 21 (- 2)))
     (PStr ''pymatching'') (PStr ''abc'') PNone CountsNone False =
     (CountsNone, Inr ''       100,         3,         0,    5.25,pymatching,abc,null,'')"
    by code_simp
  have v: "float_val (Finite False 21 (- 2)) = 21 / 4" by (simp add: power_int_def power2_eq_square)
  have fd: "fraction_digits ''5.25'' = Some ''25''" by (simp add: fraction_digits_def)
  from seconds_decimal_places[of "[]" False 21 "- 2" repr0 "PInt 100" "PInt 3" "PInt 0"
      "PStr ''pymatching''" "PStr ''abc''" PNone CountsNone CountsNone
      "''       100,         3,         0,    5.25,pymatching,abc,null,''" False] h v
  have "format_seconds (PFloat (Finite False 21 (- 2))) = PStr (format_f 2 (Finite False 21 (- 2))) \<and>
    split_fields ''       100,         3,         0,    5.25,pymatching,abc,null,'' ! 3 =
     rjust 8 (format_f 2 (Finite False 21 (- 2)))"
    by (simp add: Let_def del: format_seconds.simps format_f.simps)
  with h v fd show ?thesis by blast
qed

theorem seconds_infinite_counterexample:
  "\<not> float_lt_int (Infinity False) 1 \<and> \<not> float_lt_int (Infinity False) 10 \<and>
   format_seconds (PFloat (Infinity False)) = PStr ''inf'' \<and>
   fraction_digits ''inf'' = None \<and>
   csv_line repr0 (PInt 100) (PInt 3) (PInt 0) (PFloat (Infinity False)) (PStr ''pymatching'')
     (PStr ''abc'') PNone CountsNone False =
     (CountsNone, Inr ''       100,         3,         0,     inf,pymatching,abc,null,'')"
  by code_simp

text \<open>
  C6. In a data row, the json_metadata column is the escaped \<^verbatim>\<open>json.dumps\<close> text of the
  value, whatever the value is; the errors column is the escaped \<^verbatim>\<open>json.dumps\<close> text when
  errors is a mapping and the escaped value itself otherwise; the custom_counts column of
  a non-empty mapping is the escaped \<^verbatim>\<open>json.dumps\<close> text of the mapping after its values
  were coerced to integers. The text of a mapping is \<^verbatim>\<open>{\<close>, the items \<^verbatim>\<open>key:value\<close> in the
  order of their keys joined by a comma and nothing else, and \<^verbatim>\<open>}\<close>. So it does not depend
  on the insertion order: two mappings with the same items in a different order, and more
  generally two values with the same canonical form, give the same text; the mapping with
  b: 1 then a: 2 gives \<^verbatim>\<open>{"a":2,"b":1}\<close>.
\<close>

theorem canonical_json_fields:
  "(csv_line R sh er di se de si jm cc False = (after, Inr line) \<longrightarrow>
      split_fields line ! 6 = escape_csv R (PStr (json_dumps R jm)) None \<and>
      split_fields line ! 1 = escape_csv R (dump_errors R er) (Some 10) \<and>
      (\<forall>d. cc = CountsDict d \<and> d \<noteq> [] \<longrightarrow>
         (\<exists>d'. after = CountsDict d' \<and>
               split_fields line ! 7 = escape_csv R (PStr (json_dumps R (PDict d'))) None \<and>
               (distinct (map fst d) \<longrightarrow> list_all2 coerced d d')))) \<and>
   dump_errors R (PDict kvs) = PStr (json_dumps R (PDict kvs)) \<and>
   ((\<forall>d. er \<noteq> PDict d) \<longrightarrow> dump_errors R er = er) \<and>
   json_dumps R (PDict kvs) =
     ''{'' @ join '','' (map (\<lambda>(k, v). json_str k @ '':'' @ json_dumps R v) (sort_key fst kvs)) @ ''}'' \<and>
   sorted (map fst (sort_key fst kvs)) \<and> mset (sort_key fst kvs) = mset kvs \<and>
   json_dumps R (PList xs) = ''['' @ join '','' (map (json_dumps R) xs) @ '']'' \<and>
   (distinct (map fst a) \<and> mset a = mset b \<longrightarrow> json_dumps R (PDict a) = json_dumps R (PDict b)) \<and>
   (canon v = canon v' \<longrightarrow> json_dumps R v = json_dumps R v') \<and>
   json_dumps R (PDict [(''b'', PInt 1), (''a'', PInt 2)]) =
     ''{'' @ [DQUOTE] @ ''a'' @ [DQUOTE] @ '':2,'' @ [DQUOTE] @ ''b'' @ [DQUOTE] @ '':1}'' \<and>
   json_dumps R (PDict [(''a'', PInt 2), (''b'', PInt 1)]) =
     ''{'' @ [DQUOTE] @ ''a'' @ [DQUOTE] @ '':2,'' @ [DQUOTE] @ ''b'' @ [DQUOTE] @ '':1}''"
proof -
  have row: "split_fields line ! 6 = escape_csv R (PStr (json_dumps R jm)) None \<and>
      split_fields line ! 1 = escape_csv R (dump_errors R er) (Some 10) \<and>
      (\<forall>d. cc = CountsDict d \<and> d \<noteq> [] \<longrightarrow>
         (\<exists>d'. after = CountsDict d' \<and>
               split_fields line ! 7 = escape_csv R (PStr (json_dumps R (PDict d'))) None \<and>
               (distinct (map fst d) \<longrightarrow> list_all2 coerced d d')))"
    if h: "csv_line R sh er di se de si jm cc False = (after, Inr line)"
  proof -
    from csv_line_row[OF h] obtain c where
      p: "prepare_counts R cc = (after, Inr c)" and
      s: "split_fields line = escaped_fields R sh er di se de si jm @ [c]" by blast
    have 6: "split_fields line ! 6 = escape_csv R (PStr (json_dumps R jm)) None"
      by (simp add: s escaped_fields_def)
    have 1: "split_fields line ! 1 = escape_csv R (dump_errors R er) (Some 10)"
      by (simp add: s escaped_fields_def)
    have 7: "\<exists>d'. after = CountsDict d' \<and>
               split_fields line ! 7 = escape_csv R (PStr (json_dumps R (PDict d'))) None \<and>
               (distinct (map fst d) \<longrightarrow> list_all2 coerced d d')"
      if cd: "cc = CountsDict d" "d \<noteq> []" for d
    proof -
      from prepare_counts_nonempty_dict[OF cd(2) p[unfolded cd(1)]] obtain d' where
        d': "after = CountsDict d'" "c = escape_csv R (PStr (json_dumps R (PDict d'))) None"
        by blast
      have c7: "split_fields line ! 7 = c" by (simp add: s nth_append)
      have "list_all2 coerced d d'" if "distinct (map fst d)"
        using dict_row_coerced[OF that h[unfolded cd(1)]] d'(1) by auto
      with d' c7 show ?thesis by blast
    qed
    from 6 1 7 show ?thesis by blast
  qed
  have de: "(\<forall>d. er \<noteq> PDict d) \<longrightarrow> dump_errors R er = er"
    by (cases er) simp_all
  have cn: "json_dumps R v = json_dumps R v'" if "canon v = canon v'"
    using json_dumps_canon[of R v] json_dumps_canon[of R v'] that by simp
  have pd: "json_dumps R (PDict kvs) =
     ''{'' @ join '','' (map (\<lambda>(k, v). json_str k @ '':'' @ json_dumps R v) (sort_key fst kvs)) @ ''}''"
    by (simp only: json_dumps.simps)
  have pl: "json_dumps R (PList xs) = ''['' @ join '','' (map (json_dumps R) xs) @ '']''"
    by (simp only: json_dumps.simps)
  have so: "sorted (map fst (sort_key fst kvs)) \<and> mset (sort_key fst kvs) = mset kvs"
    by simp
  have dk: "dump_errors R (PDict kvs) = PStr (json_dumps R (PDict kvs))" by simp
  from row de cn pd pl so dk json_dumps_insertion_order[of a b R] json_example[of R]
  show ?thesis by blast
qed

theorem canonical_json_fields_witness:
  "csv_line repr0 (PInt 100) (PDict [(''timeout'', PInt 2), (''mismatch'', PInt 1)]) (PInt 0)
     (PStr ''1.5'') (PStr ''pymatching'') (PStr ''abc'') (PDict [(''b'', PInt 1), (''a'', PInt 2)])
     (CountsDict [(''x'', PInt 3)]) False =
     (CountsDict [(''x'', PInt 3)],
      Inr (''       100,'' @ [DQUOTE] @ ''{'' @ [DQUOTE, DQUOTE] @ ''mismatch'' @ [DQUOTE, DQUOTE] @
           '':1,'' @ [DQUOTE, DQUOTE] @ ''timeout'' @ [DQUOTE, DQUOTE] @ '':2}'' @ [DQUOTE] @
           '',         0,     1.5,pymatching,abc,'' @
           [DQUOTE] @ ''{'' @ [DQUOTE, DQUOTE] @ ''a'' @ [DQUOTE, DQUOTE] @ '':2,'' @
           [DQUOTE, DQUOTE] @ ''b'' @ [DQUOTE, DQUOTE] @ '':1}'' @ [DQUOTE] @ '','' @
           [DQUOTE] @ ''{'' @ [DQUOTE, DQUOTE] @ ''x'' @ [DQUOTE, DQUOTE] @ '':3}'' @ [DQUOTE])) \<and>
   split_fields (''       100,'' @ [DQUOTE] @ ''{'' @ [DQUOTE, DQUOTE] @ ''mismatch'' @ [DQUOTE, DQUOTE] @
           '':1,'' @ [DQUOTE, DQUOTE] @ ''timeout'' @ [DQUOTE, DQUOTE] @ '':2}'' @ [DQUOTE] @
           '',         0,     1.5,pymatching,abc,'' @
           [DQUOTE] @ ''{'' @ [DQUOTE, DQUOTE] @ ''a'' @ [DQUOTE, DQUOTE] @ '':2,'' @
           [DQUOTE, DQUOTE] @ ''b'' @ [DQUOTE, DQUOTE] @ '':1}'' @ [DQUOTE] @ '','' @
           [DQUOTE] @ ''{'' @ [DQUOTE, DQUOTE] @ ''x'' @ [DQUOTE, DQUOTE] @ '':3}'' @ [DQUOTE]) ! 6 =
     escape_csv repr0 (PStr (json_dumps repr0 (PDict [(''b'', PInt 1), (''a'', PInt 2)]))) None \<and>
   distinct (map fst [(''b'', PInt 1), (''a'', PInt 2)]) \<and>
   mset [(''b'', PInt 1), (''a'', PInt 2)] = mset [(''a'', PInt 2), (''b'', PInt 1 :: pyval)] \<and>
   json_dumps repr0 (PDict [(''b'', PInt 1), (''a'', PInt 2)]) =
     json_dumps repr0 (PDict [(''a'', PInt 2), (''b'', PInt 1)])"
proof -
  have h: "csv_line repr0 (PInt 100) (PDict [(''timeout'', PInt 2), (''mismatch'', PInt 1)]) (PInt 0)
     (PStr ''1.5'') (PStr ''pymatching'') (PStr ''abc'') (PDict [(''b'', PInt 1), (''a'', PInt 2)])
     (CountsDict [(''x'', PInt 3)]) False =
     (CountsDict [(''x'', PInt 3)],
      Inr (''       100,'' @ [DQUOTE] @ ''{'' @ [DQUOTE, DQUOTE] @ ''mismatch'' @ [DQUOTE, DQUOTE] @
           '':1,'' @ [DQUOTE, DQUOTE] @ ''timeout'' @ [DQUOTE, DQUOTE] @ '':2}'' @ [DQUOTE] @
           '',         0,     1.5,pymatching,abc,'' @
           [DQUOTE] @ ''{'' @ [DQUOTE, DQUOTE] @ ''a'' @ [DQUOTE, DQUOTE] @ '':2,'' @
           [DQUOTE, DQUOTE] @ ''b'' @ [DQUOTE, DQUOTE] @ '':1}'' @ [DQUOTE] @ '','' @
           [DQUOTE] @ ''{'' @ [DQUOTE, DQUOTE] @ ''x'' @ [DQUOTE, DQUOTE] @ '':3}'' @ [DQUOTE]))"
    by code_simp
  have d: "distinct (map fst [(''b'', PInt 1), (''a'', PInt 2)])" by simp
  have m: "mset [(''b'', PInt 1), (''a'', PInt 2)] = mset [(''a'', PInt 2), (''b'', PInt 1 :: pyval)]"
    by simp
  from canonical_json_fields[of repr0 "PInt 100" "PDict [(''timeout'', PInt 2), (''mismatch'', PInt 1)]"
      "PInt 0" "PStr ''1.5''" "PStr ''pymatching''" "PStr ''abc''"
      "PDict [(''b'', PInt 1), (''a'', PInt 2)]" "CountsDict [(''x'', PInt 3)]"
      "CountsDict [(''x'', PInt 3)]" _ "[]" "[]"
      "[(''b'', PInt 1), (''a'', PInt 2)]" "[(''a'', PInt 2), (''b'', PInt 1)]" PNone PNone] h d m
  show ?thesis by blast
qed

text \<open>
  C7. The header constant and every data row have the same layout. Split at the commas
  outside quotes, a data row gives exactly eight fields, separated by seven such commas:
  the escaped shots, errors, discards, seconds, decoder, strong_id and json_metadata, in
  this order, and then the custom_counts text; the row is these eight joined by single
  commas, with no separator after the eighth (when the custom_counts text is empty the
  row ends with the seventh comma), and it does not end in a line break. The header gives
  the eight column names in the same order (the first four right-justified), with seven
  commas, and does not end in a line break either.
\<close>

theorem header_and_rows_same_layout:
  assumes "csv_line R sh er di se de si jm cc False = (after, Inr line)"
  shows "(\<exists>c. prepare_counts R cc = (after, Inr c) \<and>
             split_fields line =
               [escape_csv R sh (Some 10), escape_csv R (dump_errors R er) (Some 10),
                escape_csv R di (Some 10), escape_csv R (format_seconds se) (Some 8),
                escape_csv R de None, escape_csv R si None,
                escape_csv R (PStr (json_dumps R jm)) None, c] \<and>
             line = join [COMMA] (split_fields line)) \<and>
         length (split_fields line) = 8 \<and> outer_commas False line = 7 \<and>
         line \<noteq> [] \<and> last line \<noteq> CR \<and> last line \<noteq> LF \<and>
         split_fields (CSV_HEADER R) =
           [''     shots'', ''    errors'', ''  discards'', '' seconds'', ''decoder'',
            ''strong_id'', ''json_metadata'', ''custom_counts''] \<and>
         map lstrip (split_fields (CSV_HEADER R)) =
           [''shots'', ''errors'', ''discards'', ''seconds'', ''decoder'', ''strong_id'',
            ''json_metadata'', ''custom_counts''] \<and>
         length (split_fields (CSV_HEADER R)) = length (split_fields line) \<and>
         outer_commas False (CSV_HEADER R) = 7 \<and>
         CSV_HEADER R = join [COMMA] (split_fields (CSV_HEADER R)) \<and>
         last (CSV_HEADER R) \<noteq> CR \<and> last (CSV_HEADER R) \<noteq> LF"
proof -
  let ?fs = "escaped_fields R sh er di se de si jm"
  from csv_line_row[OF assms] obtain c where
    p: "prepare_counts R cc = (after, Inr c)" and
    l: "line = join [COMMA] (?fs @ [c])" and
    s: "split_fields line = ?fs @ [c]" by blast
  have s8: "split_fields line =
               [escape_csv R sh (Some 10), escape_csv R (dump_errors R er) (Some 10),
                escape_csv R di (Some 10), escape_csv R (format_seconds se) (Some 8),
                escape_csv R de None, escape_csv R si None,
                escape_csv R (PStr (json_dumps R jm)) None, c]"
    by (simp add: s escaped_fields_def)
  have j: "line = join [COMMA] (split_fields line)" using l s by simp
  have n: "length (split_fields line) = 8" by (simp add: s)
  then have o: "outer_commas False line = 7"
    by (simp add: split_fields_def length_split_fields_in)
  have "?fs \<noteq> []" by (simp add: escaped_fields_def)
  then have l': "line = join [COMMA] ?fs @ [COMMA] @ c" by (simp add: l join_snoc)
  then have ne: "line \<noteq> []" by simp
  have e: "last line \<noteq> CR \<and> last line \<noteq> LF"
  proof (cases "c = []")
    case True
    then show ?thesis by (simp add: l' COMMA_def CR_def LF_def)
  next
    case False
    then have "\<not> is_space (last c)" using prepare_counts_last[of R cc c] p by simp
    moreover have "last line = last c" using False by (simp add: l')
    ultimately show ?thesis by auto
  qed
  have h: "split_fields (CSV_HEADER R) =
           [''     shots'', ''    errors'', ''  discards'', '' seconds'', ''decoder'',
            ''strong_id'', ''json_metadata'', ''custom_counts'']"
    by (rule CSV_HEADER_fields)
  have hn: "map lstrip (split_fields (CSV_HEADER R)) =
           [''shots'', ''errors'', ''discards'', ''seconds'', ''decoder'', ''strong_id'',
            ''json_metadata'', ''custom_counts'']"
    unfolding h by (rule CSV_HEADER_names)
  have hl: "length (split_fields (CSV_HEADER R)) = length (split_fields line)"
    by (simp add: h n)
  then have ho: "outer_commas False (CSV_HEADER R) = 7"
    using n by (simp add: split_fields_def length_split_fields_in)
  have hj: "CSV_HEADER R = join [COMMA] (split_fields (CSV_HEADER R))"
    unfolding h by (simp add: CSV_HEADER_text COMMA_def)
  have he: "last (CSV_HEADER R) \<noteq> CR \<and> last (CSV_HEADER R) \<noteq> LF"
    by (simp add: CSV_HEADER_last CR_def LF_def)
  from p s8 j have "\<exists>c. prepare_counts R cc = (after, Inr c) \<and>
             split_fields line =
               [escape_csv R sh (Some 10), escape_csv R (dump_errors R er) (Some 10),
                escape_csv R di (Some 10), escape_csv R (format_seconds se) (Some 8),
                escape_csv R de None, escape_csv R si None,
                escape_csv R (PStr (json_dumps R jm)) None, c] \<and>
             line = join [COMMA] (split_fields line)" by blast
  with n o ne e h hn hl ho hj he show ?thesis by blast
qed

theorem header_and_rows_same_layout_witness:
  "csv_line repr0 (PInt 100) (PInt 3) (PInt 0) (PStr ''1.5'') (PStr ''a,b'') (PStr ''abc'')
     (PBool True) CountsNone False =
     (CountsNone,
      Inr (''       100,         3,         0,     1.5,'' @ [DQUOTE] @ ''a,b'' @ [DQUOTE] @
           '',abc,true,'')) \<and>
   length (split_fields (''       100,         3,         0,     1.5,'' @ [DQUOTE] @ ''a,b'' @
             [DQUOTE] @ '',abc,true,'')) = 8 \<and>
   outer_commas False (''       100,         3,         0,     1.5,'' @ [DQUOTE] @ ''a,b'' @
             [DQUOTE] @ '',abc,true,'') = 7 \<and>
   length (split_fields (CSV_HEADER repr0)) = 8"
proof -
  have h: "csv_line repr0 (PInt 100) (PInt 3) (PInt 0) (PStr ''1.5'') (PStr ''a,b'') (PStr ''abc'')
     (PBool True) CountsNone False =
     (CountsNone,
      Inr (''       100,         3,         0,     1.5,'' @ [DQUOTE] @ ''a,b'' @ [DQUOTE] @
           '',abc,true,''))"
    by code_simp
  from header_and_rows_same_layout[OF h] have
    "length (split_fields (''       100,         3,         0,     1.5,'' @ [DQUOTE] @ ''a,b'' @
             [DQUOTE] @ '',abc,true,'')) = 8 \<and>
     outer_commas False (''       100,         3,         0,     1.5,'' @ [DQUOTE] @ ''a,b'' @
             [DQUOTE] @ '',abc,true,'') = 7 \<and>
     length (split_fields (CSV_HEADER repr0)) = 8"
    by (elim conjE) simp
  with h show ?thesis by blast
qed

text \<open>
  C8, as amended. When \<^verbatim>\<open>custom_counts\<close> is a non-empty mapping and \<^verbatim>\<open>int()\<close> raises on
  one of its values, a data row is not produced: \<^verbatim>\<open>csv_line\<close> ends with the exception that
  \<^verbatim>\<open>int()\<close> raised on the first such value in insertion order. The values before it have
  been replaced by their integers in the caller's mapping, the failing one and those after
  it are as they were. \<^verbatim>\<open>int()\<close> raises \<^verbatim>\<open>TypeError\<close> on \<^verbatim>\<open>None\<close>, a list and a mapping,
  \<^verbatim>\<open>ValueError\<close> on NaN and on a text that is not an integer literal within the digit cap,
  and \<^verbatim>\<open>OverflowError\<close> on an infinity. It does not raise on a finite float that is not
  an integer: the float is truncated towards zero, and when \<^verbatim>\<open>int()\<close> raises on no value
  the row is produced from the truncated values.
\<close>

theorem coercion_failure_propagates:
  assumes "d \<noteq> []" and "distinct (map fst d)"
  shows "((\<exists>(k, v) \<in> set d. \<exists>err. py_int v = Inl err) \<longrightarrow>
            (\<exists>pre pre' k v post err.
               d = pre @ (k, v) # post \<and> list_all2 coerced pre pre' \<and> py_int v = Inl err \<and>
               (err = TypeError \<or> err = ValueError \<or> err = OverflowError) \<and>
               csv_line R sh er di se de si jm (CountsDict d) False =
                 (CountsDict (pre' @ (k, v) # post), Inl err))) \<and>
         ((\<forall>(k, v) \<in> set d. \<exists>i. py_int v = Inr i) \<longrightarrow>
            (\<exists>d' line.
               csv_line R sh er di se de si jm (CountsDict d) False = (CountsDict d', Inr line) \<and>
               list_all2 coerced d d' \<and>
               split_fields line ! 7 = escape_csv R (PStr (json_dumps R (PDict d'))) None)) \<and>
         py_int (PFloat (Finite s m e)) =
           Inr ((if s then - 1 else 1) * \<lfloor>\<bar>float_val (Finite s m e)\<bar>\<rfloor>) \<and>
         py_int PNone = Inl TypeError \<and> py_int (PList xs) = Inl TypeError \<and>
         py_int (PDict kvs) = Inl TypeError \<and> py_int (PFloat NaN) = Inl ValueError \<and>
         py_int (PFloat (Infinity b)) = Inl OverflowError \<and>
         ((\<exists>i. py_int (PStr t) = Inr i) \<or> py_int (PStr t) = Inl ValueError)"
proof -
  note p = prepare_counts_dict[OF assms, of R]
  have 1: "\<exists>pre pre' k v post err.
               d = pre @ (k, v) # post \<and> list_all2 coerced pre pre' \<and> py_int v = Inl err \<and>
               (err = TypeError \<or> err = ValueError \<or> err = OverflowError) \<and>
               csv_line R sh er di se de si jm (CountsDict d) False =
                 (CountsDict (pre' @ (k, v) # post), Inl err)"
    if f: "\<exists>(k, v) \<in> set d. \<exists>err. py_int v = Inl err"
  proof -
    from coerce_items_first_fail[OF f] obtain pre pre' k v post err where
      h: "d = pre @ (k, v) # post" "list_all2 coerced pre pre'" "py_int v = Inl err" by blast
    have c: "coerce_items d = (Some err, pre' @ (k, v) # post)"
      unfolding h(1) using h(2,3) by (rule coerce_items_fail)
    have l: "csv_line R sh er di se de si jm (CountsDict d) False =
          (CountsDict (pre' @ (k, v) # post), Inl err)"
      by (simp add: csv_line_data p c del: prepare_counts.simps)
    have "err \<noteq> KeyError" using h(3) py_int_not_KeyError[of v] by auto
    then have "err = TypeError \<or> err = ValueError \<or> err = OverflowError"
      by (cases err) simp_all
    with h l show ?thesis by blast
  qed
  have 2: "\<exists>d' line.
               csv_line R sh er di se de si jm (CountsDict d) False = (CountsDict d', Inr line) \<and>
               list_all2 coerced d d' \<and>
               split_fields line ! 7 = escape_csv R (PStr (json_dumps R (PDict d'))) None"
    if a: "\<forall>(k, v) \<in> set d. \<exists>i. py_int v = Inr i"
  proof -
    let ?d' = "snd (coerce_items d)"
    let ?c = "escape_csv R (PStr (json_dumps R (PDict ?d'))) None"
    let ?line = "join [COMMA] (escaped_fields R sh er di se de si jm @ [?c])"
    have ok: "fst (coerce_items d) = None" using a by (rule coerce_items_all_ok)
    then have l: "csv_line R sh er di se de si jm (CountsDict d) False = (CountsDict ?d', Inr ?line)"
      by (simp add: csv_line_data p del: prepare_counts.simps)
    from csv_line_row[OF l] p ok have "split_fields ?line = escaped_fields R sh er di se de si jm @ [?c]"
      by (auto simp del: prepare_counts.simps)
    then have "split_fields ?line ! 7 = ?c" by (simp add: nth_append)
    with l coerce_items_ok[OF ok] show ?thesis by blast
  qed
  from 1 2 py_int_finite_float[of s m e] py_int_text[of t] show ?thesis by simp
qed

theorem coercion_failure_propagates_witness:
  "[(''x'', PStr ''3''), (''y'', PNone), (''z'', PStr ''4'')] \<noteq> [] \<and>
   distinct (map fst [(''x'', PStr ''3''), (''y'', PNone), (''z'', PStr ''4'')]) \<and>
   py_int PNone = Inl TypeError \<and>
   csv_line repr0 (PInt 100) (PInt 3) (PInt 0) (PStr ''1.5'') (PStr ''pymatching'') (PStr ''abc'')
     PNone (CountsDict [(''x'', PStr ''3''), (''y'', PNone), (''z'', PStr ''4'')]) False =
     (CountsDict [(''x'', PInt 3), (''y'', PNone), (''z'', PStr ''4'')], Inl TypeError) \<and>
   (\<exists>pre pre' k v post err.
       [(''x'', PStr ''3''), (''y'', PNone), (''z'', PStr ''4'')] = pre @ (k, v) # post \<and>
       list_all2 coerced pre pre' \<and> py_int v = Inl err \<and>
       (err = TypeError \<or> err = ValueError \<or> err = OverflowError) \<and>
       csv_line repr0 (PInt 100) (PInt 3) (PInt 0) (PStr ''1.5'') (PStr ''pymatching'')
         (PStr ''abc'') PNone
         (CountsDict [(''x'', PStr ''3''), (''y'', PNone), (''z'', PStr ''4'')]) False =
         (CountsDict (pre' @ (k, v) # post), Inl err)) \<and>
   [(''x'', PFloat (Finite False 7 (- 1))), (''y'', PStr ''12'')] \<noteq> [] \<and>
   distinct (map fst [(''x'', PFloat (Finite False 7 (- 1))), (''y'', PStr ''12'')]) \<and>
   py_int (PFloat (Finite False 7 (- 1))) = Inr 3 \<and> py_int (PStr ''12'') = Inr 12 \<and>
   (\<exists>d' line.
       csv_line repr0 (PInt 100) (PInt 3) (PInt 0) (PStr ''1.5'') (PStr ''pymatching'')
         (PStr ''abc'') PNone
         (CountsDict [(''x'', PFloat (Finite False 7 (- 1))), (''y'', PStr ''12'')]) False =
         (CountsDict d', Inr line) \<and>
       list_all2 coerced [(''x'', PFloat (Finite False 7 (- 1))), (''y'', PStr ''12'')] d' \<and>
       split_fields line ! 7 = escape_csv repr0 (PStr (json_dumps repr0 (PDict d'))) None)"
proof -
  let ?d = "[(''x'', PStr ''3''), (''y'', PNone), (''z'', PStr ''4'')]"
  let ?g = "[(''x'', PFloat (Finite False 7 (- 1))), (''y'', PStr ''12'')]"
  have h1: "?d \<noteq> []" by simp
  have h2: "distinct (map fst ?d)" by simp
  have h3: "\<exists>(k, v) \<in> set ?d. \<exists>err. py_int v = Inl err" by simp
  have e: "csv_line repr0 (PInt 100) (PInt 3) (PInt 0) (PStr ''1.5'') (PStr ''pymatching'')
     (PStr ''abc'') PNone (CountsDict ?d) False =
     (CountsDict [(''x'', PInt 3), (''y'', PNone), (''z'', PStr ''4'')], Inl TypeError)"
    by code_simp
  have g1: "?g \<noteq> []" by simp
  have g2: "distinct (map fst ?g)" by simp
  have x: "py_int (PFloat (Finite False 7 (- 1))) = Inr 3" by code_simp
  have y: "py_int (PStr ''12'') = Inr 12" by code_simp
  have g3: "\<forall>(k, v) \<in> set ?g. \<exists>i. py_int v = Inr i" using x y by simp
  note a = coercion_failure_propagates[OF h1 h2, of repr0 "PInt 100" "PInt 3" "PInt 0"
        "PStr ''1.5''" "PStr ''pymatching''" "PStr ''abc''" PNone]
  note b = coercion_failure_propagates[OF g1 g2, of repr0 "PInt 100" "PInt 3" "PInt 0"
        "PStr ''1.5''" "PStr ''pymatching''" "PStr ''abc''" PNone]
  note A = mp[OF conjunct1[OF a] h3]
  note B = mp[OF conjunct1[OF conjunct2[OF b]] g3]
  have n0: "py_int PNone = Inl TypeError" by simp
  show ?thesis
    by (intro conjI) (rule h1 h2 n0 e A g1 g2 x y B)+
qed

theorem fractional_count_truncated_counterexample:
  "float_val (Finite False 7 (- 1)) = 7 / 2 \<and>
   float_val (Finite False 7 (- 1)) \<notin> \<int> \<and>
   csv_line repr0 (PInt 100) (PInt 3) (PInt 0) (PStr ''1.5'') (PStr ''pymatching'') (PStr ''abc'')
     PNone (CountsDict [(''x'', PFloat (Finite False 7 (- 1)))]) False =
     (CountsDict [(''x'', PInt 3)],
      Inr (''       100,         3,         0,     1.5,pymatching,abc,null,'' @
           [DQUOTE] @ ''{'' @ [DQUOTE, DQUOTE] @ ''x'' @ [DQUOTE, DQUOTE] @ '':3}'' @ [DQUOTE]))"
proof -
  have v: "float_val (Finite False 7 (- 1)) = 7 / 2" by (simp add: power_int_def)
  have n: "(7 / 2 :: real) \<notin> \<int>"
  proof
    assume "(7 / 2 :: real) \<in> \<int>"
    then obtain i :: int where "(7 / 2 :: real) = of_int i" by (rule Ints_cases)
    then have "real_of_int 7 = real_of_int (2 * i)" by simp
    then have "7 = 2 * i" by (simp only: of_int_eq_iff)
    then show False by presburger
  qed
  have r: "csv_line repr0 (PInt 100) (PInt 3) (PInt 0) (PStr ''1.5'') (PStr ''pymatching'')
     (PStr ''abc'') PNone (CountsDict [(''x'', PFloat (Finite False 7 (- 1)))]) False =
     (CountsDict [(''x'', PInt 3)],
      Inr (''       100,         3,         0,     1.5,pymatching,abc,null,'' @
           [DQUOTE] @ ''{'' @ [DQUOTE, DQUOTE] @ ''x'' @ [DQUOTE, DQUOTE] @ '':3}'' @ [DQUOTE]))"
    by code_simp
  from v n r show ?thesis by simp
qed

text \<open>
  C9. A data row (\<open>is_header\<close> false) whose \<^verbatim>\<open>custom_counts\<close> is empty or absent is
  always produced, leaves \<^verbatim>\<open>custom_counts\<close> as it was, and its eighth column is the empty
  text: the line is the seven escaped columns joined by commas, followed by the seventh
  comma and nothing else.
\<close>

theorem empty_custom_counts_blank:
  assumes "cc = CountsNone \<or> cc = CountsDict [] \<or> cc = CountsStr []"
  shows "\<exists>line. csv_line R sh er di se de si jm cc False = (cc, Inr line) \<and>
           line = join [COMMA] (escaped_fields R sh er di se de si jm) @ [COMMA] \<and>
           length (split_fields line) = 8 \<and> outer_commas False line = 7 \<and>
           split_fields line ! 7 = []"
proof -
  let ?fs = "escaped_fields R sh er di se de si jm"
  let ?line = "join [COMMA] (?fs @ [[]])"
  have p: "prepare_counts R cc = (cc, Inr [])"
    using assms by (rule prepare_counts_empty)
  then have c: "csv_line R sh er di se de si jm cc False = (cc, Inr ?line)"
    by (simp add: csv_line_data)
  from csv_line_row[OF c] p have s: "split_fields ?line = ?fs @ [[]]" by auto
  have "?fs \<noteq> []" by (simp add: escaped_fields_def)
  then have l: "?line = join [COMMA] ?fs @ [COMMA]" by (simp add: join_snoc)
  have n: "length (split_fields ?line) = 8" by (simp add: s)
  then have o: "outer_commas False ?line = 7"
    by (simp add: split_fields_def length_split_fields_in)
  have "split_fields ?line ! 7 = []" by (simp add: s nth_append)
  with c l n o show ?thesis by metis
qed

theorem empty_custom_counts_blank_witness:
  "(CountsDict [] = CountsNone \<or> CountsDict [] = CountsDict [] \<or> CountsDict [] = CountsStr []) \<and>
   (\<exists>line. csv_line repr0 (PInt 100) (PInt 3) (PInt 0) (PStr ''1.5'') (PStr ''pymatching'')
              (PStr ''abc'') PNone (CountsDict []) False = (CountsDict [], Inr line) \<and>
           line = join [COMMA] (escaped_fields repr0 (PInt 100) (PInt 3) (PInt 0) (PStr ''1.5'')
                    (PStr ''pymatching'') (PStr ''abc'') PNone) @ [COMMA] \<and>
           length (split_fields line) = 8 \<and> outer_commas False line = 7 \<and>
           split_fields line ! 7 = [])"
proof -
  have h: "CountsDict [] = CountsNone \<or> CountsDict [] = CountsDict [] \<or> CountsDict [] = CountsStr []"
    by simp
  show ?thesis
    using h empty_custom_counts_blank[OF h, of repr0 "PInt 100" "PInt 3" "PInt 0" "PStr ''1.5''"
        "PStr ''pymatching''" "PStr ''abc''" PNone]
    by blast
qed

text \<open>
  C10. In a data row whose \<^verbatim>\<open>json_metadata\<close> is \<^verbatim>\<open>None\<close>, the seventh column is the
  four characters \<^verbatim>\<open>null\<close>, not an empty field: the absent value goes through
  \<^verbatim>\<open>json.dumps\<close> like any other.
\<close>

theorem absent_metadata_null:
  assumes "csv_line R sh er di se de si PNone cc False = (after, Inr line)"
  shows "length (split_fields line) = 8 \<and> split_fields line ! 6 = ''null''"
proof -
  from csv_line_row[OF assms] obtain c where
    s: "split_fields line = escaped_fields R sh er di se de si PNone @ [c]" by blast
  have "escaped_fields R sh er di se de si PNone ! 6 = ''null''"
    by (simp add: escaped_fields_def json_dumps.simps escape_null)
  then show ?thesis by (simp add: s nth_append)
qed

theorem absent_metadata_null_witness:
  "csv_line repr0 (PInt 100) (PInt 3) (PInt 0) (PStr ''1.5'') (PStr ''pymatching'') (PStr ''abc'')
     PNone CountsNone False =
     (CountsNone, Inr ''       100,         3,         0,     1.5,pymatching,abc,null,'') \<and>
   length (split_fields ''       100,         3,         0,     1.5,pymatching,abc,null,'') = 8 \<and>
   split_fields ''       100,         3,         0,     1.5,pymatching,abc,null,'' ! 6 = ''null''"
proof -
  have h: "csv_line repr0 (PInt 100) (PInt 3) (PInt 0) (PStr ''1.5'') (PStr ''pymatching'')
     (PStr ''abc'') PNone CountsNone False =
     (CountsNone, Inr ''       100,         3,         0,     1.5,pymatching,abc,null,'')"
    by code_simp
  show ?thesis using h absent_metadata_null[OF h] by simp
qed

end
